theory Spec2Isabelle
  imports Main
begin

section \<open>JavaScript values\<close>

text \<open>
  The library is plain JavaScript. Values are modelled by the datatype \<open>jsval\<close>.
  Objects with identity (functions, arrays, plain objects, class instances) carry a
  reference number: two such values are the same object exactly when they are equal as
  HOL terms (a snapshot never holds one reference with two contents).
  Numbers are integers, \<open>NaN\<close>, or any other number (a fraction or an infinity), the latter
  identified by its canonical decimal rendering.
  \<open>VObj r kvs\<close> is an object created by an object literal, with its own enumerable
  properties \<open>kvs\<close> in the order of \<open>Object.keys\<close>; it inherits from \<open>Object.prototype\<close>, and
  an own property named \<open>constructor\<close>, \<open>toString\<close> or \<open>valueOf\<close> shadows the inherited one.
  \<open>VFun r\<close> is a function written by the caller; its source text is taken to be that of
  an anonymous function, which \<open>FN_MATCH_REGEXP\<close> does not match, and its \<open>prototype\<close>
  property is the one the runtime gave it.
  \<open>CClass c\<close> is a constructor whose source text starts with \<open>function c\<close>: a function
  declaration, a built-in constructor such as \<open>Date\<close>, or a class compiled to a function;
  two constructors are the same function exactly when they are equal as terms.
  A class in ES2015 class syntax, whose source text \<open>FN_MATCH_REGEXP\<close> does not match, is
  not among the constructors of the model. \<open>VInst r c\<close> is an instance of \<open>CClass c\<close>
  that is not one of the built-in kinds; it has no own properties and its class defines
  no \<open>toString\<close>.
  Values are finite trees: an array or object that contains itself is not a value of the
  model.
\<close>

datatype error = TypeError

datatype jsnum = NInt int | NOther string | NNaN

datatype ctor = CString | CNumber | CBoolean | CFunction | CArray | CObject | CSymbol
  | CClass string

datatype jsval = VUndefined | VNull | VBool bool | VNum jsnum | VStr string | VSym nat
  | VFun nat | VArr nat "jsval list" | VObj nat "(string \<times> jsval) list" | VInst nat string

text \<open>The name matched by \<open>FN_MATCH_REGEXP\<close> in the source text of a constructor.\<close>

fun ctor_name :: "ctor \<Rightarrow> string" where
  "ctor_name CString = ''String''"
| "ctor_name CNumber = ''Number''"
| "ctor_name CBoolean = ''Boolean''"
| "ctor_name CFunction = ''Function''"
| "ctor_name CArray = ''Array''"
| "ctor_name CObject = ''Object''"
| "ctor_name CSymbol = ''Symbol''"
| "ctor_name (CClass n) = n"

text \<open>
  The constructor a value is created by, which is what \<open>value.constructor\<close> reads unless
  the value has an own property of that name; there is none on \<open>null\<close> and \<open>undefined\<close>.
\<close>

fun constructor_of :: "jsval \<Rightarrow> ctor option" where
  "constructor_of VUndefined = None"
| "constructor_of VNull = None"
| "constructor_of (VBool _) = Some CBoolean"
| "constructor_of (VNum _) = Some CNumber"
| "constructor_of (VStr _) = Some CString"
| "constructor_of (VSym _) = Some CSymbol"
| "constructor_of (VFun _) = Some CFunction"
| "constructor_of (VArr _ _) = Some CArray"
| "constructor_of (VObj _ _) = Some CObject"
| "constructor_of (VInst _ c) = Some (CClass c)"

text \<open>The own property \<open>constructor\<close> of a value, if it has one.\<close>

definition own_constructor :: "jsval \<Rightarrow> jsval option" where
  "own_constructor v = (case v of VObj _ kvs \<Rightarrow> map_of kvs ''constructor'' | _ \<Rightarrow> None)"

fun truthy :: "jsval \<Rightarrow> bool" where
  "truthy VUndefined = False"
| "truthy VNull = False"
| "truthy (VBool b) = b"
| "truthy (VNum (NInt i)) = (i \<noteq> 0)"
| "truthy (VNum NNaN) = False"
| "truthy (VNum (NOther _)) = True"
| "truthy (VStr t) = (t \<noteq> [])"
| "truthy _ = True"

fun isArray :: "jsval \<Rightarrow> bool" where
  "isArray (VArr _ _) = True"
| "isArray _ = False"

fun isFunction :: "jsval \<Rightarrow> bool" where
  "isFunction (VFun _) = True"
| "isFunction _ = False"

text \<open>
  \<open>isPlainObject\<close> is the package \<open>is-plain-object\<close>: past the test for an object whose
  tag is \<open>[object Object]\<close> it reads \<open>o.constructor\<close>, returns \<open>false\<close> if that is not a
  function, and returns \<open>false\<close> unless the \<open>prototype\<close> of that function has an own
  \<open>isPrototypeOf\<close>, which among the functions of the model only \<open>Object\<close> has. So an
  object with an own property \<open>constructor\<close> is not plain, whatever the property holds.
\<close>

fun isPlainObject :: "jsval \<Rightarrow> bool" where
  "isPlainObject (VObj _ kvs) = (''constructor'' \<notin> set (map fst kvs))"
| "isPlainObject _ = False"

fun isInteger :: "jsval \<Rightarrow> bool" where
  "isInteger (VNum (NInt _)) = True"
| "isInteger _ = False"

fun isSymbol :: "jsval \<Rightarrow> bool" where
  "isSymbol (VSym _) = True"
| "isSymbol _ = False"

text \<open>\<open>value instanceof C\<close> for a constructor \<open>C\<close> (inheritance between classes is not modelled).\<close>

fun instance_of :: "jsval \<Rightarrow> ctor \<Rightarrow> bool" where
  "instance_of (VInst _ c) k = (k = CClass c)"
| "instance_of _ _ = False"

text \<open>Strict equality \<open>===\<close>, which is what \<open>Array.prototype.indexOf\<close> compares with.\<close>

definition strict_eq :: "jsval \<Rightarrow> jsval \<Rightarrow> bool" where
  "strict_eq a b = (a = b \<and> a \<noteq> VNum NNaN)"

text \<open>\<open>arr.indexOf(v) !== -1\<close>\<close>

definition arr_includes :: "jsval list \<Rightarrow> jsval \<Rightarrow> bool" where
  "arr_includes arr v = list_ex (\<lambda>x. strict_eq x v) arr"

subsection \<open>Conversion to strings\<close>

fun show_nat :: "nat \<Rightarrow> string" where
  "show_nat n = (if n < 10 then [''0123456789'' ! n]
                 else show_nat (n div 10) @ [''0123456789'' ! (n mod 10)])"

declare show_nat.simps [simp del]

definition show_int :: "int \<Rightarrow> string" where
  "show_int i = (if i < 0 then ''-'' @ show_nat (nat (- i)) else show_nat (nat i))"

text \<open>
  \<open>to_str\<close> is the conversion a template literal applies to a value, \<open>join_with\<close> is
  \<open>Array.prototype.join\<close>. Converting a symbol raises a \<open>TypeError\<close> in JavaScript: the
  result is \<open>None\<close> then. An object is converted by its \<open>toString\<close>, which is the
  inherited one, giving \<open>[object Object]\<close>, unless the object has an own property of that
  name. An own \<open>toString\<close> that is not a function is skipped and \<open>valueOf\<close> is tried: the
  inherited one returns the object itself and one that is not a function is skipped too,
  so the conversion raises. What a function stored under \<open>toString\<close> or \<open>valueOf\<close> returns
  is not modelled: the result is \<open>None\<close> there as well, so that nothing is said about the
  text. Integers print with all their digits, as JavaScript prints the integers of
  magnitude below \<open>10^21\<close>; from there on JavaScript uses the exponent notation.
\<close>

fun to_str :: "jsval \<Rightarrow> string option"
and join_with :: "string \<Rightarrow> jsval list \<Rightarrow> string option" where
  "to_str VUndefined = Some ''undefined''"
| "to_str VNull = Some ''null''"
| "to_str (VBool b) = Some (if b then ''true'' else ''false'')"
| "to_str (VNum (NInt i)) = Some (show_int i)"
| "to_str (VNum (NOther r)) = Some r"
| "to_str (VNum NNaN) = Some ''NaN''"
| "to_str (VStr t) = Some t"
| "to_str (VSym _) = None"
| "to_str (VFun _) = Some ''function () { [native code] }''"
| "to_str (VArr _ xs) = join_with '','' xs"
| "to_str (VObj _ kvs) =
     (case map_of kvs ''toString'' of
        None \<Rightarrow> Some ''[object Object]''
      | Some _ \<Rightarrow> None)"
| "to_str (VInst _ _) = Some ''[object Object]''"
| "join_with sep [] = Some []"
| "join_with sep (x # xs) =
     (case (if x = VUndefined \<or> x = VNull then Some [] else to_str x) of
        None \<Rightarrow> None
      | Some a \<Rightarrow> (if xs = [] then Some a
                   else (case join_with sep xs of None \<Rightarrow> None | Some b \<Rightarrow> Some (a @ sep @ b))))"

text \<open>
  \<open>FN_MATCH_REGEXP\<close> is \<open>/^\s*function (\w+)/\<close>: white space, the word \<open>function\<close>, one
  space, and a name of letters, digits and underscores, which is the match.
\<close>

definition is_space :: "char \<Rightarrow> bool" where
  "is_space c = (c \<in> set [CHR '' '', CHR 0x09, CHR 0x0A, CHR 0x0B, CHR 0x0C, CHR 0x0D, CHR 0xA0])"

definition is_word :: "char \<Rightarrow> bool" where
  "is_word c = (c \<in> set (''abcdefghijklmnopqrstuvwxyz'' @ ''ABCDEFGHIJKLMNOPQRSTUVWXYZ''
                            @ ''0123456789'' @ ''_''))"

definition fn_match :: "string \<Rightarrow> string option" where
  "fn_match src =
     (let rest = dropWhile is_space src;
          name = takeWhile is_word (drop 9 rest)
      in if take 9 rest = ''function '' \<and> name \<noteq> [] then Some name else None)"

text \<open>
  The match of \<open>FN_MATCH_REGEXP\<close> in \<open>x.toString()\<close>, for a value \<open>x\<close> that is neither
  \<open>null\<close> nor \<open>undefined\<close>. The text of a symbol starts with \<open>Symbol(\<close>, which does not
  match; every other value has the text of \<open>to_str\<close>, and the call raises where \<open>to_str\<close>
  has no text (as there, what a function stored under \<open>toString\<close> returns is not
  modelled).
\<close>

definition source_name :: "jsval \<Rightarrow> error + string option" where
  "source_name x = (case x of
       VSym _ \<Rightarrow> Inr None
     | _ \<Rightarrow> (case to_str x of None \<Rightarrow> Inl TypeError | Some src \<Rightarrow> Inr (fn_match src)))"

text \<open>
  \<open>getNativeType\<close> of utils: \<open>null\<close> for \<open>null\<close> and \<open>undefined\<close>, and otherwise the match
  of \<open>FN_MATCH_REGEXP\<close> in \<open>value.constructor.toString()\<close>. For a value without an own
  property \<open>constructor\<close> that is the name of its constructor. With an own property the
  call raises a \<open>TypeError\<close> when the property holds \<open>null\<close> or \<open>undefined\<close>, and matches the
  text of what it holds otherwise.
\<close>

definition getNativeType :: "jsval \<Rightarrow> error + string option" where
  "getNativeType v =
     (if v = VNull \<or> v = VUndefined then Inr None
      else (case own_constructor v of
              None \<Rightarrow> Inr (map_option ctor_name (constructor_of v))
            | Some x \<Rightarrow>
                if x = VNull \<or> x = VUndefined then Inl TypeError
                else source_name x))"

text \<open>Joining strings (an array of strings) with a separator.\<close>

fun join_strs :: "string \<Rightarrow> string list \<Rightarrow> string" where
  "join_strs sep [] = []"
| "join_strs sep [a] = a"
| "join_strs sep (a # b # bs) = a @ sep @ join_strs sep (b # bs)"

definition dq :: string where
  "dq = [CHR 0x22]"

definition nl :: string where
  "nl = [CHR 0x0A]"

text \<open>
  \<open>Object.keys(v)\<close> paired with \<open>v[key]\<close>: the own enumerable entries of a value;
  \<open>Object.keys\<close> raises on \<open>null\<close> and \<open>undefined\<close>.
\<close>

fun own_entries :: "jsval \<Rightarrow> (string \<times> jsval) list option" where
  "own_entries VUndefined = None"
| "own_entries VNull = None"
| "own_entries (VObj _ kvs) = Some kvs"
| "own_entries (VArr _ xs) = Some (zip (map show_nat [0..<length xs]) xs)"
| "own_entries (VStr t) = Some (zip (map show_nat [0..<length t]) (map (\<lambda>c. VStr [c]) t))"
| "own_entries _ = Some []"

text \<open>\<open>obj[key]\<close> on a plain object\<close>

definition get_prop :: "(string \<times> jsval) list \<Rightarrow> string \<Rightarrow> jsval" where
  "get_prop kvs k = (case map_of kvs k of Some v \<Rightarrow> v | None \<Rightarrow> VUndefined)"

section \<open>The diagnostic sink\<close>

text \<open>
  \<open>warn\<close> is a module variable of utils holding a function. Outside of a validator call it
  is the console sink; \<open>validateType\<close> replaces it by a function that pushes onto a local
  array \<open>warnLog\<close> while a validator runs, and assigns the saved function back afterwards.
  The state keeps the buffers of the pending replacements as a stack, innermost first:
  the empty stack is the console sink, replacing the sink pushes an empty buffer,
  assigning \<open>oldWarn\<close> back pops it. The console sink is the development one, with
  \<open>Vue.config.silent\<close> false.
\<close>

record wstate =
  bufs :: "string list list"
  console :: "string list"

definition warn :: "string \<Rightarrow> wstate \<Rightarrow> wstate" where
  "warn msg s = (case bufs s of
       [] \<Rightarrow> s\<lparr>console := console s @ [''[VueTypes warn]: '' @ msg]\<rparr>
     | b # bs \<Rightarrow> s\<lparr>bufs := (b @ [msg]) # bs\<rparr>)"

definition init_state :: wstate where
  "init_state = \<lparr>bufs = [], console = []\<rparr>"

section \<open>Descriptors, type arguments and validators\<close>

text \<open>
  A value used as a type is \<open>undefined\<close>, \<open>null\<close>, a constructor, an array of such
  values, or a plain object (a descriptor). A descriptor has the fields the library reads:
  \<open>_vueTypes_name\<close>, \<open>type\<close>, \<open>required\<close>, \<open>default\<close>, \<open>validator\<close>, whether
  \<open>toType\<close> gave it the settable \<open>validate\<close> method, and \<open>_vueTypes_isLoose\<close>; a field
  that is \<open>None\<close> is not an own property. The validator functions of the library are
  closures: one constructor per closure, holding the variables it captures. A function
  supplied by the caller is a function of its arguments that returns a value or raises.
  A validator stored on a descriptor is bound to it (\<open>toType\<close>, \<open>withValidate\<close>), so it
  always runs with the name and the loose flag of its descriptor as \<open>this\<close>.
\<close>

datatype dflt = DValue jsval | DArrayFactory jsval | DObjectFactory jsval

datatype tyval = TUndefined | TNull | TCtor ctor | TArray "tyval list" | TDesc desc
and desc = Desc (d_name: "string option") (d_type: "tyval option") (d_required: "bool option")
     (d_default: "dflt option") (d_validator: "validator option") (d_validate: bool)
     (d_isLoose: "bool option")
and validator = VInteger | VSymbol | VCustom "jsval \<Rightarrow> error + jsval" string
   | VOneOf "jsval list" string | VOneOfType "tyval list" | VArrayOf tyval | VObjectOf tyval
   | VShape "(string \<times> tyval) list" "string list" "string list"
   | VExtend desc validator | VBound validator "jsval list"
   | VUser "jsval list \<Rightarrow> error + jsval" | VStubTrue

fun first_fn_name :: "tyval \<Rightarrow> string option" where
  "first_fn_name (TCtor c) = Some (ctor_name c)"
| "first_fn_name (TArray (t # ts)) = first_fn_name t"
| "first_fn_name _ = None"

definition getType :: "tyval \<Rightarrow> string option" where
  "getType fn = (case fn of
       TUndefined \<Rightarrow> None
     | TNull \<Rightarrow> None
     | TDesc d \<Rightarrow> (case d_type d of
           None \<Rightarrow> None
         | Some TUndefined \<Rightarrow> None
         | Some TNull \<Rightarrow> None
         | Some ty \<Rightarrow> first_fn_name ty)
     | _ \<Rightarrow> first_fn_name fn)"

definition show_name :: "string option \<Rightarrow> string" where
  "show_name n = (case n of None \<Rightarrow> ''null'' | Some t \<Rightarrow> t)"

definition plain_or_wrapped :: "tyval \<Rightarrow> desc" where
  "plain_or_wrapped t = (case t of TDesc d \<Rightarrow> d | _ \<Rightarrow> Desc None (Some t) None None None False None)"

text \<open>
  \<open>hasOwn.call(typeToCheck, 'type') && typeToCheck.type !== null\<close>, and the test
  \<open>typeToCheck.type === undefined\<close> under it.
\<close>

definition has_type :: "desc \<Rightarrow> bool" where
  "has_type d = (case d_type d of None \<Rightarrow> False | Some TNull \<Rightarrow> False | Some _ \<Rightarrow> True)"

definition type_undefined :: "desc \<Rightarrow> bool" where
  "type_undefined d = (case d_type d of Some TUndefined \<Rightarrow> True | _ \<Rightarrow> False)"

fun nullish :: "tyval \<Rightarrow> bool" where
  "nullish TUndefined = True"
| "nullish TNull = True"
| "nullish _ = False"

datatype tcheck = Done jsval | Checked bool string

definition native_check :: "desc \<Rightarrow> jsval \<Rightarrow> error + tcheck" where
  "native_check typeToCheck v =
     (let expectedType = getType (TDesc typeToCheck) in
      if expectedType = Some ''Array'' then Inr (Checked (isArray v) ''Array'')
      else if expectedType = Some ''Object'' then Inr (Checked (isPlainObject v) ''Object'')
      else if expectedType = Some ''String'' \<or> expectedType = Some ''Number'' \<or>
              expectedType = Some ''Boolean'' \<or> expectedType = Some ''Function''
        then (case getNativeType v of
                Inl e \<Rightarrow> Inl e
              | Inr nativeType \<Rightarrow> Inr (Checked (nativeType = expectedType) (show_name expectedType)))
      else (case d_type typeToCheck of
              Some (TCtor c) \<Rightarrow> Inr (Checked (instance_of v c) (show_name expectedType))
            | _ \<Rightarrow> Inl TypeError))"

definition oneOf_strip :: "tyval \<Rightarrow> tyval" where
  "oneOf_strip ty = (case ty of
       TDesc d \<Rightarrow>
         (if d_name d = Some ''oneOf''
          then (case d_type d of None \<Rightarrow> TNull | Some TUndefined \<Rightarrow> TNull | Some t \<Rightarrow> t)
          else ty)
     | _ \<Rightarrow> ty)"


definition arg0 :: "jsval list \<Rightarrow> jsval" where
  "arg0 args = (case args of [] \<Rightarrow> VUndefined | a # _ \<Rightarrow> a)"

definition field_type :: "(string \<times> tyval) list \<Rightarrow> string \<Rightarrow> tyval" where
  "field_type obj k = (case map_of obj k of Some t \<Rightarrow> t | None \<Rightarrow> TUndefined)"

function
  validateType :: "tyval \<Rightarrow> jsval \<Rightarrow> bool \<Rightarrow> wstate \<Rightarrow> (error + jsval) \<times> wstate"
and type_some :: "tyval list \<Rightarrow> jsval \<Rightarrow> wstate \<Rightarrow> (error + bool) \<times> wstate"
and call_validator :: "string option \<times> bool option \<Rightarrow> validator \<Rightarrow> jsval list \<Rightarrow> wstate
      \<Rightarrow> (error + jsval) \<times> wstate"
and every_valid :: "tyval \<Rightarrow> jsval list \<Rightarrow> wstate \<Rightarrow> (error + bool) \<times> wstate"
and oneOfType_some :: "tyval list \<Rightarrow> jsval \<Rightarrow> wstate \<Rightarrow> (error + bool) \<times> wstate"
and shape_every :: "(string \<times> tyval) list \<Rightarrow> string list \<Rightarrow> bool option
      \<Rightarrow> (string \<times> jsval) list \<Rightarrow> string list \<Rightarrow> wstate \<Rightarrow> (error + bool) \<times> wstate"
where
  "validateType t v silent s =
    (let typeToCheck = plain_or_wrapped t;
         namePrefix = (case d_name typeToCheck of
                         None \<Rightarrow> []
                       | Some n \<Rightarrow> if n = [] then [] else n @ '' - '');
         checked =
           (if has_type typeToCheck then
              (if type_undefined typeToCheck then (Inl TypeError, s)
               else if d_required typeToCheck \<noteq> Some True \<and> v = VUndefined
                 then (Inr (Done (VBool True)), s)
               else (case d_type typeToCheck of
                   Some (TArray ts) \<Rightarrow>
                     (case type_some ts v s of
                        (Inl e, s') \<Rightarrow> (Inl e, s')
                      | (Inr valid, s') \<Rightarrow>
                          (Inr (Checked valid
                                 (join_strs '' or '' (map (\<lambda>ty. case getType ty of None \<Rightarrow> [] | Some n \<Rightarrow> n) ts))),
                           s'))
                 | _ \<Rightarrow> (native_check typeToCheck v, s)))
            else (Inr (Checked True ''undefined''), s))
     in case checked of
          (Inl e, s1) \<Rightarrow> (Inl e, s1)
        | (Inr (Done r), s1) \<Rightarrow> (Inr r, s1)
        | (Inr (Checked valid expectedType), s1) \<Rightarrow>
            if \<not> valid then
              (case to_str v of
                 None \<Rightarrow> (Inl TypeError, s1)
               | Some shown \<Rightarrow>
                   (let msg = namePrefix @ ''value '' @ dq @ shown @ dq @ '' should be of type ''
                                @ dq @ expectedType @ dq
                    in if \<not> silent then (Inr (VBool False), warn msg s1)
                       else (Inr (VStr msg), s1)))
            else
              (case d_validator typeToCheck of
                 None \<Rightarrow> (Inr (VBool True), s1)
               | Some validator \<Rightarrow>
                   (case call_validator (d_name typeToCheck, d_isLoose typeToCheck) validator [v]
                           (s1\<lparr>bufs := [] # bufs s1\<rparr>) of
                      (Inl e, s2) \<Rightarrow> (Inl e, s2)
                    | (Inr r, s2) \<Rightarrow>
                        (let warnLog = hd (bufs s2);
                             s3 = s2\<lparr>bufs := tl (bufs s2)\<rparr>
                         in if \<not> truthy r then
                              (let msg = (if warnLog \<noteq> []
                                          then ''* '' @ join_strs (nl @ '' * '') warnLog else [])
                               in if \<not> silent
                                  then (Inr r, if msg \<noteq> [] then warn msg s3 else s3)
                                  else (Inr (VStr msg), s3))
                            else (Inr r, s3)))))"
| "type_some [] v s = (Inr False, s)"
| "type_some (t # ts) v s =
    (case validateType t v True s of
       (Inl e, s') \<Rightarrow> (Inl e, s')
     | (Inr r, s') \<Rightarrow> if r = VBool True then (Inr True, s') else type_some ts v s')"
| "call_validator ctx VInteger args s = (Inr (VBool (isInteger (arg0 args))), s)"
| "call_validator ctx VSymbol args s = (Inr (VBool (isSymbol (arg0 args))), s)"
| "call_validator ctx (VCustom validatorFn warnMsg) args s =
    (case validatorFn (arg0 args) of
       Inl e \<Rightarrow> (Inl e, s)
     | Inr valid \<Rightarrow>
         (Inr valid,
          if \<not> truthy valid
          then warn ((case fst ctx of None \<Rightarrow> ''undefined'' | Some n \<Rightarrow> n) @ '' - '' @ warnMsg) s
          else s))"
| "call_validator ctx (VOneOf arr msg) args s =
    (let valid = arr_includes arr (arg0 args)
     in (Inr (VBool valid), if \<not> valid then warn msg s else s))"
| "call_validator ctx (VOneOfType arr) args s =
    (case oneOfType_some arr (arg0 args) s of
       (Inl e, s') \<Rightarrow> (Inl e, s')
     | (Inr valid, s') \<Rightarrow>
         if \<not> valid then
           (case to_str (arg0 args) of
              None \<Rightarrow> (Inl TypeError, s')
            | Some shown \<Rightarrow>
                (Inr (VBool False),
                 warn (''oneOfType - value '' @ dq @ shown @ dq
                       @ '' does not match any of the passed-in validators.'') s'))
         else (Inr (VBool True), s'))"
| "call_validator ctx (VArrayOf t) args s =
    (case arg0 args of
       VArr _ values \<Rightarrow>
         (case every_valid t values s of
            (Inl e, s') \<Rightarrow> (Inl e, s')
          | (Inr valid, s') \<Rightarrow>
              (Inr (VBool valid),
               if \<not> valid
               then warn (''arrayOf - value must be an array of '' @ dq @ show_name (getType t) @ dq) s'
               else s'))
     | _ \<Rightarrow> (Inl TypeError, s))"
| "call_validator ctx (VObjectOf t) args s =
    (case own_entries (arg0 args) of
       None \<Rightarrow> (Inl TypeError, s)
     | Some kvs \<Rightarrow>
         (case every_valid t (map snd kvs) s of
            (Inl e, s') \<Rightarrow> (Inl e, s')
          | (Inr valid, s') \<Rightarrow>
              (Inr (VBool valid),
               if \<not> valid
               then warn (''objectOf - value must be an object of '' @ dq @ show_name (getType t) @ dq) s'
               else s')))"
| "call_validator ctx (VShape obj keys requiredKeys) args s =
    (if \<not> isPlainObject (arg0 args) then (Inr (VBool False), s)
     else case arg0 args of
       VObj _ kvs \<Rightarrow>
         (let valueKeys = map fst kvs
          in if requiredKeys \<noteq> [] \<and> list_ex (\<lambda>req. req \<notin> set valueKeys) requiredKeys then
               (let missing = filter (\<lambda>req. req \<notin> set valueKeys) requiredKeys
                in (Inr (VBool False),
                    warn (if length missing = 1
                          then ''shape - required property '' @ dq @ hd missing @ dq @ '' is not defined.''
                          else ''shape - required properties '' @ dq
                               @ join_strs (dq @ '', '' @ dq) missing @ dq @ '' are not defined.'') s))
             else (case shape_every obj keys (snd ctx) kvs valueKeys s of
                     (Inl e, s') \<Rightarrow> (Inl e, s')
                   | (Inr valid, s') \<Rightarrow> (Inr (VBool valid), s')))
     | _ \<Rightarrow> (Inr (VBool False), s))"
| "call_validator ctx (VExtend parent validator) args s =
    (case d_validator parent of
       None \<Rightarrow> (Inl TypeError, s)
     | Some parent_validator \<Rightarrow>
         (case call_validator (d_name parent, d_isLoose parent) parent_validator args s of
            (Inl e, s') \<Rightarrow> (Inl e, s')
          | (Inr r, s') \<Rightarrow> if truthy r then call_validator ctx validator args s' else (Inr r, s')))"
| "call_validator ctx (VBound validator bound) args s = call_validator ctx validator (bound @ args) s"
| "call_validator ctx (VUser f) args s = (f args, s)"
| "call_validator ctx VStubTrue args s = (Inr (VBool True), s)"
| "every_valid t [] s = (Inr True, s)"
| "every_valid t (x # xs) s =
    (case validateType t x False s of
       (Inl e, s') \<Rightarrow> (Inl e, s')
     | (Inr r, s') \<Rightarrow> if truthy r then every_valid t xs s' else (Inr False, s'))"
| "oneOfType_some [] v s = (Inr False, s)"
| "oneOfType_some (ty # rest) v s =
    (if nullish ty then (Inl TypeError, s)
     else (case validateType (oneOf_strip ty) v True s of
             (Inl e, s') \<Rightarrow> (Inl e, s')
           | (Inr r, s') \<Rightarrow> if r = VBool True then (Inr True, s') else oneOfType_some rest v s'))"
| "shape_every obj keys loose kvs [] s = (Inr True, s)"
| "shape_every obj keys loose kvs (key # rest) s =
    (if key \<notin> set keys then
       (if loose = Some True then shape_every obj keys loose kvs rest s
        else (Inr False,
              warn (''shape - shape definition does not include a '' @ dq @ key @ dq
                    @ '' property. Allowed keys: '' @ dq @ join_strs (dq @ '', '' @ dq) keys
                    @ dq @ ''.'') s))
     else
       (case validateType (field_type obj key) (get_prop kvs key) True s of
          (Inl e, s') \<Rightarrow> (Inl e, s')
        | (Inr valid, s') \<Rightarrow>
            (let s'' = (case valid of
                          VStr m \<Rightarrow> warn (''shape - '' @ dq @ key @ dq
                                          @ '' property validation error:'' @ nl @ '' * '' @ m) s'
                        | _ \<Rightarrow> s')
             in if valid = VBool True then shape_every obj keys loose kvs rest s''
                else (Inr False, s''))))"
  by pat_completeness auto

termination
proof -
  have ty: "size_list size ts < size d" if "d_type d = Some (TArray ts)" for d ts
    using that by (cases d) auto
  have vd: "size f < size d" if "d_validator d = Some f" for d f
    using that by (cases d) auto
  have ft: "size (field_type obj k) \<le> size_list (size_prod (\<lambda>_. 0) size) obj" for obj k
    by (induct obj) (auto simp: field_type_def)
  have tyg: "size t < size d" if "d_type d = Some t" for d t
    using that by (cases d) auto
  have st: "size (oneOf_strip t) \<le> size t" for t
    by (cases t) (auto simp: oneOf_strip_def split: option.splits tyval.splits dest: tyg)
  have pw_ty: "size_list size ts < size t"
    if "d_type (plain_or_wrapped t) = Some (TArray ts)" for t ts
    using that ty [of _ ts] by (cases t) (auto simp: plain_or_wrapped_def less_Suc_eq)
  have pw_vd: "size f < size t" if "d_validator (plain_or_wrapped t) = Some f" for t f
    using that vd [of _ f] by (cases t) (auto simp: plain_or_wrapped_def less_Suc_eq)
  show ?thesis
    apply (relation "inv_image (less_than <*lex*> less_than)
      (\<lambda>x. (case x of
          Inl (Inl (t, v, silent, s)) \<Rightarrow> (size t, 0)
        | Inl (Inr (Inl (ts, v, s))) \<Rightarrow> (size_list size ts, 0)
        | Inl (Inr (Inr (ctx, f, args, s))) \<Rightarrow> (size f, 0)
        | Inr (Inl (t, xs, s)) \<Rightarrow> (size t, Suc (length xs))
        | Inr (Inr (Inl (arr, v, s))) \<Rightarrow> (size_list size arr, 0)
        | Inr (Inr (Inr (obj, keys, loose, kvs, vk, s))) \<Rightarrow>
            (size_list (size_prod (\<lambda>_. 0) size) obj, Suc (length vk))))")
    subgoal by (intro wf_inv_image wf_lex_prod wf_less_than)
    apply (simp_all add: pw_ty pw_vd less_Suc_eq_le)
    subgoal for parent validator f using vd [of parent f] by simp
    subgoal for ty rest using st [of ty] by simp
    subgoal for obj keys key using ft [of obj key] by (simp add: le_less)
    done
qed


declare validateType.simps [simp del]

section \<open>The descriptor factory\<close>

text \<open>An object literal with a \<open>type\<close> and a \<open>validator\<close> field (either may be absent).\<close>

definition obj_lit :: "tyval option \<Rightarrow> validator option \<Rightarrow> desc" where
  "obj_lit ty f = Desc None ty None None f False None"

text \<open>
  \<open>toType\<close> stamps the name, adds the modifiers and either the settable \<open>validate\<close> method
  or the stub that only warns, and binds the validator to the object.
\<close>

definition toType :: "string \<Rightarrow> desc \<Rightarrow> bool \<Rightarrow> desc" where
  "toType name obj validateFn =
     Desc (Some name) (d_type obj) (d_required obj) (d_default obj) (d_validator obj)
          validateFn (d_isLoose obj)"

text \<open>The getter \<open>isRequired\<close> of \<open>withRequired\<close>.\<close>

definition isRequired :: "desc \<Rightarrow> desc" where
  "isRequired this = Desc (d_name this) (d_type this) (Some True) (d_default this)
                          (d_validator this) (d_validate this) (d_isLoose this)"

text \<open>The method \<open>validate\<close>: \<open>withValidate\<close>'s setter, or the stub of \<open>toType\<close>.\<close>

definition validate_method :: "desc \<Rightarrow> validator \<Rightarrow> wstate \<Rightarrow> desc \<times> wstate" where
  "validate_method this fn s =
     (if d_validate this
      then (Desc (d_name this) (d_type this) (d_required this) (d_default this) (Some fn)
                 (d_validate this) (d_isLoose this), s)
      else (this, warn ((case d_name this of None \<Rightarrow> ''undefined'' | Some n \<Rightarrow> n)
                        @ '' - '' @ dq @ ''validate'' @ dq
                        @ '' method not supported on this type'') s))"

text \<open>The method \<open>def\<close> of \<open>withDefault\<close>.\<close>

definition default_truthy :: "desc \<Rightarrow> bool" where
  "default_truthy this = (case d_default this of
       None \<Rightarrow> False
     | Some (DValue v) \<Rightarrow> truthy v
     | Some _ \<Rightarrow> True)"

definition set_default :: "desc \<Rightarrow> dflt \<Rightarrow> desc" where
  "set_default this dv = Desc (d_name this) (d_type this) (d_required this) (Some dv)
                              (d_validator this) (d_validate this) (d_isLoose this)"

definition def_method :: "desc \<Rightarrow> jsval \<Rightarrow> wstate \<Rightarrow> (error + desc) \<times> wstate" where
  "def_method this x s =
     (if x = VUndefined \<and> \<not> default_truthy this then (Inr this, s)
      else
        (case (if \<not> isFunction x
               then (case validateType (TDesc this) x False s of
                       (Inl e, s') \<Rightarrow> (Inl e, s')
                     | (Inr r, s') \<Rightarrow> (Inr (\<not> truthy r), s'))
               else (Inr False, s)) of
           (Inl e, s') \<Rightarrow> (Inl e, s')
         | (Inr True, s') \<Rightarrow>
             (case to_str x of
                None \<Rightarrow> (Inl TypeError, s')
              | Some shown \<Rightarrow>
                  (Inr this,
                   warn ((case d_name this of None \<Rightarrow> ''undefined'' | Some n \<Rightarrow> n)
                         @ '' - invalid default value: '' @ dq @ shown @ dq) s'))
         | (Inr False, s') \<Rightarrow>
             (Inr (set_default this
                     (if isArray x then DArrayFactory x
                      else if isPlainObject x then DObjectFactory x
                      else DValue x)),
              s')))"

text \<open>\<open>def\<close> assigns the property \<open>default\<close> and no other: what a result keeps of a descriptor.\<close>

definition keeps_all_but_default :: "desc \<Rightarrow> desc \<Rightarrow> bool" where
  "keeps_all_but_default d d' \<longleftrightarrow>
     d_name d' = d_name d \<and> d_type d' = d_type d \<and> d_required d' = d_required d
     \<and> d_validator d' = d_validator d \<and> d_validate d' = d_validate d \<and> d_isLoose d' = d_isLoose d"

text \<open>
  Calling a factory stored by \<open>def\<close>: \<open>() => [...def]\<close> and \<open>() => Object.assign({}, def)\<close>
  allocate a new object with the entries of the captured one. The runtime numbers the
  objects it allocates: the heap is the number of objects allocated so far, every object
  in existence has a reference below it, and a new object takes the next number.
  A default that is not a factory is not called (\<open>None\<close>).
\<close>

type_synonym heap = nat

definition alloc :: "heap \<Rightarrow> nat \<times> heap" where
  "alloc h = (h, Suc h)"

fun call_default :: "dflt \<Rightarrow> heap \<Rightarrow> (jsval \<times> heap) option" where
  "call_default (DArrayFactory (VArr _ xs)) h = (case alloc h of (r, h') \<Rightarrow> Some (VArr r xs, h'))"
| "call_default (DObjectFactory (VObj _ kvs)) h = (case alloc h of (r, h') \<Rightarrow> Some (VObj r kvs, h'))"
| "call_default _ h = None"

text \<open>The reference of a value that has one.\<close>

fun ref_of :: "jsval \<Rightarrow> nat option" where
  "ref_of (VFun r) = Some r"
| "ref_of (VArr r _) = Some r"
| "ref_of (VObj r _) = Some r"
| "ref_of (VInst r _) = Some r"
| "ref_of _ = None"

section \<open>The builders of the namespace\<close>

text \<open>
  The getters \<open>any\<close> and \<open>symbol\<close>, and the objects the getters \<open>string\<close>, \<open>number\<close>,
  \<open>array\<close>, \<open>object\<close> and \<open>integer\<close> hand to \<open>def\<close> (the defaults they pass come from the \<open>sensibleDefaults\<close>
  setting).
\<close>

definition vt_any :: desc where
  "vt_any = toType ''any'' (obj_lit (Some TNull) None) True"

definition vt_symbol :: desc where
  "vt_symbol = toType ''symbol'' (obj_lit (Some TNull) (Some VSymbol)) True"

definition string_base :: desc where
  "string_base = toType ''string'' (obj_lit (Some (TCtor CString)) None) True"

definition number_base :: desc where
  "number_base = toType ''number'' (obj_lit (Some (TCtor CNumber)) None) True"

definition array_base :: desc where
  "array_base = toType ''array'' (obj_lit (Some (TCtor CArray)) None) True"

definition object_base :: desc where
  "object_base = toType ''object'' (obj_lit (Some (TCtor CObject)) None) True"

definition integer_base :: desc where
  "integer_base = toType ''integer'' (obj_lit (Some (TCtor CNumber)) (Some VInteger)) False"

text \<open>The argument of \<open>custom\<close>: a function (with its \<open>name\<close>) or anything else.\<close>

datatype fn_arg = Callable string "jsval \<Rightarrow> error + jsval" | NotCallable

definition custom :: "fn_arg \<Rightarrow> string \<Rightarrow> error + desc" where
  "custom validatorFn warnMsg = (case validatorFn of
       NotCallable \<Rightarrow> Inl TypeError
     | Callable name f \<Rightarrow>
         Inr (toType (if name \<noteq> [] then name else ''<<anonymous function>>'')
                (obj_lit None (Some (VCustom f warnMsg))) False))"

text \<open>
  The reducer of \<open>oneOf\<close> collects \<open>v.constructor\<close> of the members other than \<open>null\<close> and
  \<open>undefined\<close>, each once. That is the constructor of the member unless the member has an
  own property \<open>constructor\<close>; then it is whatever the property holds, which is no type of
  the model. \<open>allowedTypes\<close> follows the reducer for arrays without such a member, and the
  statements about \<open>oneOf\<close> are made for these (\<open>own_constructor\<close> is \<open>None\<close> on every
  member).
\<close>

definition allowedTypes :: "jsval list \<Rightarrow> ctor list" where
  "allowedTypes arr = foldl (\<lambda>ret v. case constructor_of v of
                                None \<Rightarrow> ret
                              | Some c \<Rightarrow> if c \<in> set ret then ret else ret @ [c]) [] arr"

definition oneOf :: "jsval \<Rightarrow> error + desc" where
  "oneOf a = (case a of
       VArr _ arr \<Rightarrow>
         (case join_with (dq @ '', '' @ dq) arr of
            None \<Rightarrow> Inl TypeError
          | Some joined \<Rightarrow>
              (let msg = ''oneOf - value should be one of '' @ dq @ joined @ dq
               in Inr (toType ''oneOf''
                         (obj_lit (Some (if length (allowedTypes arr) > 0
                                         then TArray (map TCtor (allowedTypes arr))
                                         else TNull))
                                  (Some (VOneOf arr msg))) False)))
     | _ \<Rightarrow> Inl TypeError)"

definition instanceOf :: "tyval \<Rightarrow> desc" where
  "instanceOf instanceConstructor = toType ''instanceOf'' (obj_lit (Some instanceConstructor) None) False"

text \<open>
  \<open>oneOfType\<close>: the reducer that collects the native checks (with \<open>concat\<close> spreading an
  array argument and appending any other), the flag \<open>hasCustomValidators\<close> it sets on the
  way, and the removal of duplicates that keeps first occurrences. \<open>indexOf\<close> compares
  with \<open>===\<close>: constructors, \<open>null\<close> and \<open>undefined\<close> are found again. An array or a plain
  object among the checks is compared by identity, which a term of \<open>tyval\<close> does not have:
  \<open>same_type\<close> takes any two of them to be different objects, as they are unless one
  object is listed twice. The statements about the result of the removal are made for
  checks that are constructors, \<open>null\<close> or \<open>undefined\<close> (\<open>atomic\<close> below).
\<close>

definition concat_js :: "tyval list \<Rightarrow> tyval \<Rightarrow> tyval list" where
  "concat_js ret x = (case x of TArray xs \<Rightarrow> ret @ xs | _ \<Rightarrow> ret @ [x])"

definition nativeChecks_step :: "tyval list \<Rightarrow> tyval \<Rightarrow> tyval list" where
  "nativeChecks_step ret ty = (case ty of
       TDesc d \<Rightarrow>
         (if d_name d = Some ''oneOf''
          then (case d_type d of
                  None \<Rightarrow> ret
                | Some TUndefined \<Rightarrow> ret
                | Some TNull \<Rightarrow> ret
                | Some t \<Rightarrow> concat_js ret t)
          else (case d_type d of
                  None \<Rightarrow> ret
                | Some TUndefined \<Rightarrow> ret
                | Some t \<Rightarrow> concat_js ret t))
     | _ \<Rightarrow> ret @ [ty])"

definition sets_hasCustomValidators :: "tyval \<Rightarrow> bool" where
  "sets_hasCustomValidators ty = (case ty of
       TDesc d \<Rightarrow> d_name d \<noteq> Some ''oneOf'' \<and>
                  (case d_validator d of None \<Rightarrow> False | Some _ \<Rightarrow> True)
     | _ \<Rightarrow> False)"

fun same_type :: "tyval \<Rightarrow> tyval \<Rightarrow> bool" where
  "same_type TUndefined TUndefined = True"
| "same_type TNull TNull = True"
| "same_type (TCtor c) (TCtor k) = (c = k)"
| "same_type _ _ = False"

definition remove_duplicates :: "tyval list \<Rightarrow> tyval list" where
  "remove_duplicates xs =
     foldl (\<lambda>ret t. if list_ex (\<lambda>u. same_type u t) ret then ret else ret @ [t]) [] xs"

definition oneOfType :: "tyval \<Rightarrow> error + desc" where
  "oneOfType a = (case a of
       TArray arr \<Rightarrow>
         (let hasCustomValidators = list_ex sets_hasCustomValidators arr;
              nativeChecks = remove_duplicates (foldl nativeChecks_step [] arr)
          in if \<not> hasCustomValidators
             then Inr (toType ''oneOfType'' (obj_lit (Some (TArray nativeChecks)) None) False)
             else Inr (toType ''oneOfType''
                         (obj_lit (Some (TArray nativeChecks)) (Some (VOneOfType arr))) False))
     | _ \<Rightarrow> Inl TypeError)"

definition arrayOf :: "tyval \<Rightarrow> desc" where
  "arrayOf t = toType ''arrayOf'' (obj_lit (Some (TCtor CArray)) (Some (VArrayOf t))) False"

definition objectOf :: "tyval \<Rightarrow> desc" where
  "objectOf t = toType ''objectOf'' (obj_lit (Some (TCtor CObject)) (Some (VObjectOf t))) False"

definition field_required :: "tyval \<Rightarrow> bool" where
  "field_required t = (case t of TDesc d \<Rightarrow> d_required d = Some True | _ \<Rightarrow> False)"

definition shape :: "(string \<times> tyval) list \<Rightarrow> desc" where
  "shape obj =
     (let keys = map fst obj;
          requiredKeys = filter (\<lambda>key. field_required (field_type obj key)) keys;
          type = toType ''shape''
                   (obj_lit (Some (TCtor CObject)) (Some (VShape obj keys requiredKeys))) False
      in Desc (d_name type) (d_type type) (d_required type) (d_default type) (d_validator type)
              (d_validate type) (Some False))"

text \<open>The getter \<open>loose\<close> defined on the result of \<open>shape\<close>.\<close>

definition loose :: "desc \<Rightarrow> desc" where
  "loose this = Desc (d_name this) (d_type this) (d_required this) (d_default this)
                     (d_validator this) (d_validate this) (Some True)"

text \<open>\<open>VueTypes.utils.validate\<close>\<close>

definition utils_validate :: "jsval \<Rightarrow> tyval \<Rightarrow> wstate \<Rightarrow> (error + bool) \<times> wstate" where
  "utils_validate v t s = (case validateType t v True s of
       (Inl e, s') \<Rightarrow> (Inl e, s')
     | (Inr r, s') \<Rightarrow> (Inr (r = VBool True), s'))"

section \<open>The extension registry\<close>

text \<open>
  \<open>extend\<close> defines a new property on the namespace object \<open>VueTypes\<close>. The registry maps
  the own property names of that object to what they hold: a member the library ships,
  a getter defined by \<open>extend\<close> (with the variables \<open>name\<close>, \<open>opts\<close>, \<open>validate\<close> its
  closure captures) or a method defined by \<open>extend\<close> (which captures \<open>validator\<close> too).
  The argument of \<open>extend\<close> is one options object or an array of arguments.
\<close>

record spec =
  s_name :: string
  s_validate :: bool
  s_getter :: bool
  s_type :: "tyval option"
  s_required :: "bool option"
  s_default :: "dflt option"
  s_validator :: "validator option"

datatype entry = Builtin | Getter string desc bool | Method string desc bool "validator option"

type_synonym registry = "string \<Rightarrow> entry option"

datatype ext_arg = One spec | Many "ext_arg list"

definition builtin_names :: "string list" where
  "builtin_names = [''any'', ''func'', ''bool'', ''string'', ''number'', ''array'', ''object'',
     ''integer'', ''symbol'', ''extend'', ''custom'', ''oneOf'', ''instanceOf'', ''oneOfType'',
     ''arrayOf'', ''objectOf'', ''shape'', ''sensibleDefaults'', ''utils'']"

definition init_registry :: registry where
  "init_registry = (\<lambda>n. if n \<in> set builtin_names then Some Builtin else None)"

text \<open>\<open>has(VueTypes, name)\<close>\<close>

definition has :: "registry \<Rightarrow> string \<Rightarrow> bool" where
  "has reg name = (case reg name of None \<Rightarrow> False | Some _ \<Rightarrow> True)"

text \<open>\<open>type && type._vueTypes_name\<close>: the parent descriptor, if \<open>type\<close> is one.\<close>

definition parent_of :: "tyval option \<Rightarrow> desc option" where
  "parent_of ty = (case ty of
       Some (TDesc p) \<Rightarrow> (case d_name p of
                            Some n \<Rightarrow> if n \<noteq> [] then Some p else None
                          | None \<Rightarrow> None)
     | _ \<Rightarrow> None)"

text \<open>The options and the \<open>validate\<close> flag after the inheritance block of \<open>extend\<close>.\<close>

definition inherit :: "spec \<Rightarrow> desc \<times> bool" where
  "inherit props =
     (let validator = (case s_validator props of None \<Rightarrow> VStubTrue | Some f \<Rightarrow> f)
      in case parent_of (s_type props) of
           None \<Rightarrow>
             (Desc None (s_type props) (s_required props) (s_default props)
                   (s_validator props) False None,
              s_validate props)
         | Some type \<Rightarrow>
             (Desc None
                (case d_type type of None \<Rightarrow> None | Some TUndefined \<Rightarrow> None | Some t \<Rightarrow> Some t)
                (case d_required type of None \<Rightarrow> s_required props | Some r \<Rightarrow> Some r)
                (case d_default type of
                   None \<Rightarrow> s_default props
                 | Some (DValue VUndefined) \<Rightarrow> s_default props
                 | Some dv \<Rightarrow> Some dv)
                (case d_validator type of
                   None \<Rightarrow> s_validator props
                 | Some _ \<Rightarrow> Some (VExtend type validator))
                False None,
              False))"

definition extend_one :: "spec \<Rightarrow> registry \<Rightarrow> (error + unit) \<times> registry" where
  "extend_one props reg =
     (if has reg (s_name props) then (Inl TypeError, reg)
      else (case inherit props of
              (opts, validate) \<Rightarrow>
                (Inr (),
                 reg(s_name props \<mapsto>
                       (if s_getter props then Getter (s_name props) opts validate
                        else Method (s_name props) opts validate (d_validator opts))))))"

fun extend :: "ext_arg \<Rightarrow> registry \<Rightarrow> (error + unit) \<times> registry"
and extend_each :: "ext_arg list \<Rightarrow> registry \<Rightarrow> (error + unit) \<times> registry" where
  "extend (Many props) reg = extend_each props reg"
| "extend (One props) reg = extend_one props reg"
| "extend_each [] reg = (Inr (), reg)"
| "extend_each (p # ps) reg =
     (case extend p reg of
        (Inl e, reg') \<Rightarrow> (Inl e, reg')
      | (Inr _, reg') \<Rightarrow> extend_each ps reg')"

text \<open>Reading a property defined with \<open>getter: true\<close>, and calling one defined as a method.\<close>

definition get_type :: "registry \<Rightarrow> string \<Rightarrow> desc option" where
  "get_type reg name = (case reg name of
       Some (Getter n opts validate) \<Rightarrow> Some (toType n opts validate)
     | _ \<Rightarrow> None)"

definition call_type :: "registry \<Rightarrow> string \<Rightarrow> jsval list \<Rightarrow> desc option" where
  "call_type reg name args = (case reg name of
       Some (Method n opts validate validator) \<Rightarrow>
         (let ret = toType n opts validate
          in Some (case validator of
                     None \<Rightarrow> ret
                   | Some f \<Rightarrow> Desc (d_name ret) (d_type ret) (d_required ret) (d_default ret)
                                    (Some (VBound f args)) (d_validate ret) (d_isLoose ret)))
     | _ \<Rightarrow> None)"

text \<open>The names an argument of \<open>extend\<close> asks to define.\<close>

fun names_of :: "ext_arg \<Rightarrow> string list"
and names_of_each :: "ext_arg list \<Rightarrow> string list" where
  "names_of (One props) = [s_name props]"
| "names_of (Many ps) = names_of_each ps"
| "names_of_each [] = []"
| "names_of_each (p # ps) = names_of p @ names_of_each ps"

section \<open>The stages of \<open>validateType\<close>\<close>

text \<open>
  The body of \<open>validateType\<close> in three pieces, named for the proofs: the native-type
  check up to the assignment of \<open>valid\<close> and \<open>expectedType\<close>, the report of a failed
  native check, and what happens once the validator has returned \<open>valid\<close> and the sink
  has been restored.
\<close>

definition type_stage :: "desc \<Rightarrow> jsval \<Rightarrow> wstate \<Rightarrow> (error + tcheck) \<times> wstate" where
  "type_stage typeToCheck v s =
     (if has_type typeToCheck then
        (if type_undefined typeToCheck then (Inl TypeError, s)
         else if d_required typeToCheck \<noteq> Some True \<and> v = VUndefined
           then (Inr (Done (VBool True)), s)
         else (case d_type typeToCheck of
             Some (TArray ts) \<Rightarrow>
               (case type_some ts v s of
                  (Inl e, s') \<Rightarrow> (Inl e, s')
                | (Inr valid, s') \<Rightarrow>
                    (Inr (Checked valid
                           (join_strs '' or '' (map (\<lambda>ty. case getType ty of None \<Rightarrow> [] | Some n \<Rightarrow> n) ts))),
                     s'))
           | _ \<Rightarrow> (native_check typeToCheck v, s)))
      else (Inr (Checked True ''undefined''), s))"

definition namePrefix :: "desc \<Rightarrow> string" where
  "namePrefix typeToCheck = (case d_name typeToCheck of
       None \<Rightarrow> []
     | Some n \<Rightarrow> if n = [] then [] else n @ '' - '')"

definition type_mismatch :: "desc \<Rightarrow> jsval \<Rightarrow> string \<Rightarrow> bool \<Rightarrow> wstate \<Rightarrow> (error + jsval) \<times> wstate" where
  "type_mismatch typeToCheck v expectedType silent s1 =
     (case to_str v of
        None \<Rightarrow> (Inl TypeError, s1)
      | Some shown \<Rightarrow>
          (let msg = namePrefix typeToCheck @ ''value '' @ dq @ shown @ dq
                       @ '' should be of type '' @ dq @ expectedType @ dq
           in if \<not> silent then (Inr (VBool False), warn msg s1)
              else (Inr (VStr msg), s1)))"

definition after_validator :: "jsval \<Rightarrow> string list \<Rightarrow> bool \<Rightarrow> wstate \<Rightarrow> (error + jsval) \<times> wstate" where
  "after_validator r warnLog silent s3 =
     (if \<not> truthy r then
        (let msg = (if warnLog \<noteq> [] then ''* '' @ join_strs (nl @ '' * '') warnLog else [])
         in if \<not> silent
            then (Inr r, if msg \<noteq> [] then warn msg s3 else s3)
            else (Inr (VStr msg), s3))
      else (Inr r, s3))"

text \<open>Emitting a list of messages, one \<open>warn\<close> call after the other.\<close>

definition emit :: "string list \<Rightarrow> wstate \<Rightarrow> wstate" where
  "emit msgs s = foldl (\<lambda>s m. warn m s) s msgs"

text \<open>
  A computation is uniform when its result does not depend on the state it starts in and,
  when it returns, all it does to the state is emit a fixed list of messages.
\<close>

definition uniform :: "(wstate \<Rightarrow> (error + 'a) \<times> wstate) \<Rightarrow> bool" where
  "uniform f \<longleftrightarrow> (\<exists>res msgs. \<forall>s. fst (f s) = res \<and> (isl res \<or> snd (f s) = emit msgs s))"

text \<open>
  A value is accepted by a type when silent validation returns exactly \<open>true\<close>, which is
  the test every composite validator and \<open>utils.validate\<close> apply to the result of
  \<open>validateType\<close>. A validation can also raise.
\<close>

definition accepts :: "tyval \<Rightarrow> jsval \<Rightarrow> bool" where
  "accepts t v \<longleftrightarrow> fst (validateType t v True init_state) = Inr (VBool True)"

definition raises :: "tyval \<Rightarrow> jsval \<Rightarrow> bool" where
  "raises t v \<longleftrightarrow> isl (fst (validateType t v True init_state))"

text \<open>
  The native check of \<open>validateType\<close> against a bare constructor: the value of \<open>valid\<close>
  after the branch on \<open>expectedType\<close>.
\<close>

definition matches_ctor :: "ctor \<Rightarrow> jsval \<Rightarrow> bool" where
  "matches_ctor c v =
     (let expectedType = ctor_name c in
      if expectedType = ''Array'' then isArray v
      else if expectedType = ''Object'' then isPlainObject v
      else if expectedType = ''String'' \<or> expectedType = ''Number'' \<or>
              expectedType = ''Boolean'' \<or> expectedType = ''Function''
        then getNativeType v = Inr (Some expectedType)
      else instance_of v c)"

text \<open>
  The native check raises when it calls \<open>getNativeType\<close>, which it does for the four
  constructor names below, on a value for which that call raises.
\<close>

definition native_raises :: "ctor \<Rightarrow> jsval \<Rightarrow> bool" where
  "native_raises c v \<longleftrightarrow>
     ctor_name c \<in> set [''String'', ''Number'', ''Boolean'', ''Function'']
     \<and> getNativeType v = Inl TypeError"

text \<open>
  The list a specification of \<open>oneOf\<close> asks for: the constructors of the members that
  are neither \<open>null\<close> nor \<open>undefined\<close>, each kept at its first occurrence.
\<close>

definition first_occurrences :: "'a list \<Rightarrow> 'a list" where
  "first_occurrences xs = rev (remdups (rev xs))"

definition member_constructors :: "jsval list \<Rightarrow> ctor list" where
  "member_constructors arr = first_occurrences (List.map_filter constructor_of arr)"

text \<open>
  What the specification says a candidate of \<open>oneOfType\<close> contributes to the union of
  native types: a candidate that is not a descriptor contributes itself; a descriptor
  contributes the members of its \<open>type\<close> when that is an array and its \<open>type\<close> otherwise,
  nothing when it has no \<open>type\<close>, and a \<open>oneOf\<close> descriptor nothing when its type is \<open>null\<close>.
  The union lists the contributions in the order of the candidates, each at its first
  occurrence.
\<close>

definition contribution :: "tyval \<Rightarrow> tyval list" where
  "contribution u = (case u of
       TDesc c \<Rightarrow> (case d_type c of
                    None \<Rightarrow> []
                  | Some TUndefined \<Rightarrow> []
                  | Some TNull \<Rightarrow> if d_name c = Some ''oneOf'' then [] else [TNull]
                  | Some (TArray ts) \<Rightarrow> ts
                  | Some t \<Rightarrow> [t])
     | _ \<Rightarrow> [u])"

definition type_union :: "tyval list \<Rightarrow> tyval list" where
  "type_union arr = first_occurrences (concat (map contribution arr))"

text \<open>A native check that \<open>===\<close> finds again: a constructor, \<open>null\<close> or \<open>undefined\<close>.\<close>

fun atomic :: "tyval \<Rightarrow> bool" where
  "atomic (TArray _) = False"
| "atomic (TDesc _) = False"
| "atomic _ = True"

text \<open>
  The values whose text \<open>to_str\<close> knows: the integers in them that \<open>to_str\<close> reaches are of
  magnitude below \<open>10^21\<close>, and it reaches no function, whose source text is not modelled.
\<close>

fun text_known :: "jsval \<Rightarrow> bool" where
  "text_known (VNum (NInt i)) = (\<bar>i\<bar> < 10 ^ 21)"
| "text_known (VFun _) = False"
| "text_known (VArr _ xs) = (\<forall>x \<in> set xs. text_known x)"
| "text_known _ = True"

section \<open>Well-formed types\<close>

text \<open>
  Apart from its own \<open>throw\<close> for a type that is \<open>undefined\<close>, \<open>validateType\<close> can be left
  by an exception in five places: the template literals that put the value into a
  message (a symbol has no string conversion, nor has an object whose own \<open>toString\<close> is
  not a function), \<open>getNativeType\<close> on an object whose own \<open>constructor\<close> is \<open>null\<close> or
  \<open>undefined\<close>, \<open>instanceof\<close> with a right-hand side that is not callable, a validator of
  the library applied to a value it cannot traverse, and a validator supplied by the
  caller. The predicates below describe the values and types on which none of these
  happens.

  A value is plain data when neither it nor any element or property value in it is a
  symbol, and no object in it has an own property named \<open>constructor\<close> or \<open>toString\<close>.
\<close>

definition special_keys :: "string list" where
  "special_keys = [''constructor'', ''toString'']"

fun plain_data :: "jsval \<Rightarrow> bool" where
  "plain_data (VSym _) = False"
| "plain_data (VArr _ xs) = (\<forall>x \<in> set xs. plain_data x)"
| "plain_data (VObj _ kvs) = (\<forall>kv \<in> set kvs. fst kv \<notin> set special_keys \<and> plain_data (snd kv))"
| "plain_data _ = True"

text \<open>
  The arguments a validator can be applied to: \<open>values.every\<close> in \<open>arrayOf\<close> needs an
  array, \<open>Object.keys\<close> in \<open>objectOf\<close> needs something other than \<open>undefined\<close> and \<open>null\<close>,
  the composition made by \<open>extend\<close> calls \<open>type.validator.apply\<close>, which needs the parent
  to have a validator, and a bound validator receives the bound arguments first.
\<close>

fun applicable :: "validator \<Rightarrow> jsval list \<Rightarrow> bool" where
  "applicable (VArrayOf _) args = isArray (arg0 args)"
| "applicable (VObjectOf _) args = (arg0 args \<noteq> VUndefined \<and> arg0 args \<noteq> VNull)"
| "applicable (VExtend (Desc _ _ _ _ (Some pv) _ _) f) args = (applicable pv args \<and> applicable f args)"
| "applicable (VExtend (Desc _ _ _ _ None _ _) f) args = False"
| "applicable (VBound f bound) args = applicable f (bound @ args)"
| "applicable _ args = True"

text \<open>What is known about a value when the validator runs: it passed the native check.\<close>

definition native_pass :: "tyval option \<Rightarrow> jsval \<Rightarrow> bool" where
  "native_pass ty v = (case ty of Some (TCtor c) \<Rightarrow> matches_ctor c v | _ \<Rightarrow> True)"

text \<open>
  A type is well formed when it is \<open>null\<close>, a constructor, an array of well-formed types
  or a well-formed descriptor. A descriptor is well formed when its \<open>type\<close> field is
  absent, \<open>null\<close>, a constructor or an array of well-formed types, and its validator, if
  any, is well formed and applicable to every value that passes the native check. A
  validator is well formed when the types it validates against are, the members of a
  \<open>oneOfType\<close> validator are neither \<open>null\<close> nor \<open>undefined\<close>, the keys of a \<open>shape\<close> are
  the keys of its definition, bound arguments are plain data, and the functions
  supplied by the caller return a boolean on every argument. Types are finite trees: a
  descriptor that contains itself, such as a shape with a field that refers to the shape,
  is not a term of \<open>tyval\<close>.
\<close>

fun wf_ty :: "tyval \<Rightarrow> bool"
and wf_desc :: "desc \<Rightarrow> bool"
and wf_val :: "validator \<Rightarrow> bool" where
  "wf_ty TUndefined = False"
| "wf_ty TNull = True"
| "wf_ty (TCtor _) = True"
| "wf_ty (TArray ts) = (\<forall>t \<in> set ts. wf_ty t)"
| "wf_ty (TDesc d) = wf_desc d"
| "wf_desc (Desc _ ty _ _ f _ _) =
     ((case ty of
         None \<Rightarrow> True
       | Some TUndefined \<Rightarrow> False
       | Some TNull \<Rightarrow> True
       | Some (TCtor _) \<Rightarrow> True
       | Some (TArray ts) \<Rightarrow> (\<forall>t \<in> set ts. wf_ty t)
       | Some (TDesc _) \<Rightarrow> False)
      \<and> (case f of
           None \<Rightarrow> True
         | Some g \<Rightarrow> wf_val g \<and> (\<forall>v. native_pass ty v \<longrightarrow> applicable g [v])))"
| "wf_val VInteger = True"
| "wf_val VSymbol = True"
| "wf_val (VCustom validatorFn _) = (\<forall>x. \<exists>b. validatorFn x = Inr (VBool b))"
| "wf_val (VOneOf _ _) = True"
| "wf_val (VOneOfType arr) = (\<forall>u \<in> set arr. \<not> nullish u \<and> wf_ty u)"
| "wf_val (VArrayOf t) = wf_ty t"
| "wf_val (VObjectOf t) = wf_ty t"
| "wf_val (VShape obj keys _) =
     ((\<forall>k \<in> set keys. k \<in> fst ` set obj) \<and> (\<forall>kt \<in> set obj. wf_ty (snd kt)))"
| "wf_val (VExtend (Desc _ _ _ _ (Some pv) _ _) f) = (wf_val pv \<and> wf_val f)"
| "wf_val (VExtend (Desc _ _ _ _ None _ _) f) = False"
| "wf_val (VBound f bound) = (wf_val f \<and> (\<forall>b \<in> set bound. plain_data b))"
| "wf_val (VUser f) = (\<forall>args. \<exists>b. f args = Inr (VBool b))"
| "wf_val VStubTrue = True"

section \<open>Basic facts\<close>

lemma plain_or_wrapped_desc [simp]: "plain_or_wrapped (TDesc d) = d"
  by (simp add: plain_or_wrapped_def)

lemma native_check_null:
  "d_type d = Some (TCtor c) \<Longrightarrow> \<exists>n. native_check d VNull = Inr (Checked False n)"
  by (auto simp: native_check_def getType_def getNativeType_def Let_def)

section \<open>The short-circuit on \<open>undefined\<close>\<close>

text \<open>
  C1, as the specification states it: validating \<open>undefined\<close> against any descriptor that
  is not required passes at once, also when the descriptor has no type or the
  \<open>null\<close> type. The getter \<open>symbol\<close> refutes it: its type is \<open>null\<close>, so the test for a
  missing optional value is never reached, the validator runs on \<open>undefined\<close> and rejects it.
\<close>

theorem c1_symbol_rejects_undefined:
  "d_required vt_symbol \<noteq> Some True \<and>
   fst (validateType (TDesc vt_symbol) VUndefined False init_state) = Inr (VBool False)"
  by code_simp

text \<open>
  C1, amended: for every descriptor that is not required and whose own \<open>type\<close> field is
  neither \<open>null\<close> nor \<open>undefined\<close>, validating \<open>undefined\<close> returns \<open>true\<close> at once, whatever
  the type and the validator are, and leaves the diagnostic state as it was. A descriptor
  without a \<open>type\<close> field or with the \<open>null\<close> type has no such exit: \<open>undefined\<close> passes
  when there is no validator, and does not pass when the validator rejects it. \<open>null\<close> is
  never taken for a missing value: a descriptor typed by a constructor rejects it.
\<close>

theorem c1_undefined_short_circuit:
  "(d_required d \<noteq> Some True \<and> has_type d \<and> \<not> type_undefined d \<longrightarrow>
      validateType (TDesc d) VUndefined silent s = (Inr (VBool True), s))
   \<and> (\<not> has_type d \<and> d_validator d = None \<longrightarrow>
      validateType (TDesc d) VUndefined silent s = (Inr (VBool True), s))
   \<and> (\<not> has_type d \<and> d_validator d = Some f \<and>
      call_validator (d_name d, d_isLoose d) f [VUndefined] (s\<lparr>bufs := [] # bufs s\<rparr>) = (Inr r, s2)
      \<and> \<not> truthy r \<longrightarrow>
      fst (validateType (TDesc d) VUndefined silent s) \<noteq> Inr (VBool True))
   \<and> (d_type d = Some (TCtor c) \<longrightarrow>
      fst (validateType (TDesc d) VNull silent s) \<noteq> Inr (VBool True))"
proof (intro conjI impI)
  assume "d_required d \<noteq> Some True \<and> has_type d \<and> \<not> type_undefined d"
  then show "validateType (TDesc d) VUndefined silent s = (Inr (VBool True), s)"
    by (simp add: validateType.simps)
next
  assume "\<not> has_type d \<and> d_validator d = None"
  then show "validateType (TDesc d) VUndefined silent s = (Inr (VBool True), s)"
    by (simp add: validateType.simps)
next
  assume a: "\<not> has_type d \<and> d_validator d = Some f \<and>
      call_validator (d_name d, d_isLoose d) f [VUndefined] (s\<lparr>bufs := [] # bufs s\<rparr>) = (Inr r, s2)
      \<and> \<not> truthy r"
  then have "fst (validateType (TDesc d) VUndefined silent s) = Inr r
      \<or> (\<exists>m. fst (validateType (TDesc d) VUndefined silent s) = Inr (VStr m))"
    by (simp add: validateType.simps Let_def)
  with a show "fst (validateType (TDesc d) VUndefined silent s) \<noteq> Inr (VBool True)"
    by auto
next
  assume a: "d_type d = Some (TCtor c)"
  then obtain n where n: "native_check d VNull = Inr (Checked False n)"
    using native_check_null by blast
  from a have "has_type d" "\<not> type_undefined d"
    by (simp_all add: has_type_def type_undefined_def)
  then show "fst (validateType (TDesc d) VNull silent s) \<noteq> Inr (VBool True)"
    using a n by (simp add: validateType.simps Let_def)
qed

theorem c1_undefined_short_circuit_witness:
  "validateType (TDesc (arrayOf TUndefined)) VUndefined False init_state
     = (Inr (VBool True), init_state)
   \<and> validateType (TDesc vt_any) VUndefined True init_state = (Inr (VBool True), init_state)
   \<and> fst (validateType (TDesc vt_symbol) VUndefined True init_state) \<noteq> Inr (VBool True)
   \<and> fst (validateType (TDesc string_base) VNull False init_state) \<noteq> Inr (VBool True)"
proof -
  have 1: "d_required (arrayOf TUndefined) \<noteq> Some True \<and> has_type (arrayOf TUndefined)
           \<and> \<not> type_undefined (arrayOf TUndefined)"
    by code_simp
  have 2: "\<not> has_type vt_any \<and> d_validator vt_any = None"
    by (simp add: vt_any_def toType_def obj_lit_def has_type_def)
  have 3: "\<not> has_type vt_symbol \<and> d_validator vt_symbol = Some VSymbol \<and>
      call_validator (d_name vt_symbol, d_isLoose vt_symbol) VSymbol [VUndefined]
         (init_state\<lparr>bufs := [] # bufs init_state\<rparr>)
       = (Inr (VBool False), init_state\<lparr>bufs := [] # bufs init_state\<rparr>)
      \<and> \<not> truthy (VBool False)"
    by (simp add: vt_symbol_def toType_def obj_lit_def has_type_def arg0_def)
  have 4: "d_type string_base = Some (TCtor CString)"
    by (simp add: string_base_def toType_def obj_lit_def)
  note t1 = c1_undefined_short_circuit
      [where d = "arrayOf TUndefined" and silent = False and s = init_state,
       THEN conjunct1, rule_format, OF 1]
  note t2 = c1_undefined_short_circuit
      [where d = vt_any and silent = True and s = init_state,
       THEN conjunct2, THEN conjunct1, rule_format, OF 2]
  note t3 = c1_undefined_short_circuit
      [where d = vt_symbol and f = VSymbol and s = init_state and r = "VBool False"
         and ?s2.0 = "init_state\<lparr>bufs := [] # bufs init_state\<rparr>" and silent = True,
       THEN conjunct2, THEN conjunct2, THEN conjunct1, rule_format, OF 3]
  note t4 = c1_undefined_short_circuit
      [where d = string_base and c = CString and silent = False and s = init_state,
       THEN conjunct2, THEN conjunct2, THEN conjunct2, rule_format, OF 4]
  from t1 t2 t3 t4 show ?thesis
    by (intro conjI)
qed

section \<open>Setting a default\<close>

text \<open>
  C10: \<open>def\<close> tests the current default for falsiness, not for absence. A descriptor
  whose default is absent, \<open>undefined\<close>, \<open>null\<close>, \<open>false\<close>, \<open>0\<close>, \<open>NaN\<close> or the empty string
  has a falsy default, and for every descriptor with a falsy default \<open>def(undefined)\<close>
  returns it unchanged. For a descriptor that is not required, has a native type and a
  truthy default, \<open>def(undefined)\<close> validates \<open>undefined\<close>, which passes, and overwrites
  the default with \<open>undefined\<close>: in the descriptor it returns the property \<open>default\<close>
  holds \<open>undefined\<close> and every other property is as before.
\<close>

theorem c10_def_undefined:
  "(d_default d \<in> {None, Some (DValue VUndefined), Some (DValue VNull),
                    Some (DValue (VBool False)), Some (DValue (VNum (NInt 0))),
                    Some (DValue (VNum NNaN)), Some (DValue (VStr []))}
      \<longrightarrow> \<not> default_truthy d)
   \<and> (\<not> default_truthy d \<longrightarrow> def_method d VUndefined s = (Inr d, s))
   \<and> (default_truthy d \<and> d_required d \<noteq> Some True \<and> has_type d \<and> \<not> type_undefined d \<longrightarrow>
        validateType (TDesc d) VUndefined False s = (Inr (VBool True), s)
        \<and> (\<exists>d'. def_method d VUndefined s = (Inr d', s)
               \<and> d_default d' = Some (DValue VUndefined)
               \<and> keeps_all_but_default d d'))"
proof (intro conjI impI)
  assume "d_default d \<in> {None, Some (DValue VUndefined), Some (DValue VNull),
                    Some (DValue (VBool False)), Some (DValue (VNum (NInt 0))),
                    Some (DValue (VNum NNaN)), Some (DValue (VStr []))}"
  then show "\<not> default_truthy d"
    by (auto simp: default_truthy_def)
next
  assume "\<not> default_truthy d"
  then show "def_method d VUndefined s = (Inr d, s)"
    by (simp add: def_method_def)
next
  assume a: "default_truthy d \<and> d_required d \<noteq> Some True \<and> has_type d \<and> \<not> type_undefined d"
  then show v: "validateType (TDesc d) VUndefined False s = (Inr (VBool True), s)"
    by (simp add: validateType.simps)
  from a v show "\<exists>d'. def_method d VUndefined s = (Inr d', s)
               \<and> d_default d' = Some (DValue VUndefined)
               \<and> keeps_all_but_default d d'"
    by (simp add: def_method_def set_default_def keeps_all_but_default_def)
qed

theorem c10_def_undefined_witness:
  "def_method (set_default string_base (DValue (VStr []))) VUndefined init_state
     = (Inr (set_default string_base (DValue (VStr []))), init_state)
   \<and> d_default (set_default string_base (DValue (VStr ''John''))) = Some (DValue (VStr ''John''))
   \<and> (\<exists>d'. def_method (set_default string_base (DValue (VStr ''John''))) VUndefined init_state
              = (Inr d', init_state)
          \<and> d_default d' = Some (DValue VUndefined)
          \<and> d_name d' = Some ''string'' \<and> d_type d' = Some (TCtor CString))"
proof -
  let ?e = "set_default string_base (DValue (VStr []))"
  let ?j = "set_default string_base (DValue (VStr ''John''))"
  have 1: "d_default ?e \<in> {None, Some (DValue VUndefined), Some (DValue VNull),
                    Some (DValue (VBool False)), Some (DValue (VNum (NInt 0))),
                    Some (DValue (VNum NNaN)), Some (DValue (VStr []))}"
    by (simp add: set_default_def)
  note f = c10_def_undefined [where d = ?e and s = init_state, THEN conjunct1, rule_format, OF 1]
  note t1 = c10_def_undefined [where d = ?e and s = init_state, THEN conjunct2, THEN conjunct1,
      rule_format, OF f]
  have 2: "default_truthy ?j \<and> d_required ?j \<noteq> Some True \<and> has_type ?j \<and> \<not> type_undefined ?j"
    by code_simp
  note t2 = c10_def_undefined [where d = ?j and s = init_state, THEN conjunct2, THEN conjunct2,
      rule_format, OF 2, THEN conjunct2]
  have 3: "d_default ?j = Some (DValue (VStr ''John''))"
    "d_name ?j = Some ''string''" "d_type ?j = Some (TCtor CString)"
    by (simp_all add: set_default_def string_base_def toType_def obj_lit_def)
  from t2 3 have "\<exists>d'. def_method ?j VUndefined init_state = (Inr d', init_state)
          \<and> d_default d' = Some (DValue VUndefined)
          \<and> d_name d' = Some ''string'' \<and> d_type d' = Some (TCtor CString)"
    unfolding keeps_all_but_default_def by auto
  with t1 3(1) show ?thesis
    by (intro conjI)
qed


text \<open>
  C8, as the specification states it: when the candidate passes validation and is neither
  an array, a plain object nor a function, \<open>def\<close> stores it. The candidate \<open>undefined\<close>
  passes the validation of a string descriptor that is not required, yet \<open>def(undefined)\<close>
  on such a descriptor with the falsy default \<open>''\<close> stores nothing: the default stays \<open>''\<close>.
\<close>

theorem c8_undefined_keeps_falsy_default:
  "fst (validateType (TDesc (set_default string_base (DValue (VStr [])))) VUndefined False init_state)
     = Inr (VBool True)
   \<and> \<not> isFunction VUndefined
   \<and> map_sum id d_default
         (fst (def_method (set_default string_base (DValue (VStr []))) VUndefined init_state))
     = Inr (Some (DValue (VStr [])))"
  by code_simp


text \<open>
  C8, amended: \<open>def(x)\<close> returns the descriptor unchanged, without validating, when \<open>x\<close> is
  \<open>undefined\<close> and the current default is falsy. Otherwise, when \<open>x\<close> is not a function and
  \<open>validateType(this, x)\<close> returns a falsy result, the diagnostic
  \<open><name> - invalid default value: "<x>"\<close> is emitted and the descriptor is returned with
  its default unchanged (for \<open>x\<close> whose text the model knows: integers below \<open>10^21\<close>
  and no function inside an array); when \<open>x\<close> is not a function and validation returns a truthy result, the
  property \<open>default\<close>, and no other, is assigned: a factory of copies if \<open>x\<close> is an array
  or a plain object, and \<open>x\<close> itself otherwise, an object with an own property
  \<open>constructor\<close> included; when \<open>x\<close> is a function, \<open>default\<close> is assigned \<open>x\<close> without
  validation. Each call of a factory of copies allocates an object with the entries of
  \<open>x\<close>: two calls return two different objects, and both differ from every object
  allocated before the call, \<open>x\<close> among them.
\<close>

theorem c8_def:
  "(x = VUndefined \<and> \<not> default_truthy d \<longrightarrow> def_method d x s = (Inr d, s))
   \<and> (\<not> (x = VUndefined \<and> \<not> default_truthy d) \<and> \<not> isFunction x
        \<and> validateType (TDesc d) x False s = (Inr r, s') \<and> \<not> truthy r
        \<and> to_str x = Some shown \<and> text_known x \<longrightarrow>
        def_method d x s =
          (Inr d, warn ((case d_name d of None \<Rightarrow> ''undefined'' | Some n \<Rightarrow> n)
                        @ '' - invalid default value: '' @ dq @ shown @ dq) s'))
   \<and> (\<not> (x = VUndefined \<and> \<not> default_truthy d) \<and> \<not> isFunction x
        \<and> validateType (TDesc d) x False s = (Inr r, s') \<and> truthy r \<longrightarrow>
        (\<exists>d'. def_method d x s = (Inr d', s')
           \<and> d_default d' = Some (if isArray x then DArrayFactory x
                                   else if isPlainObject x then DObjectFactory x
                                   else DValue x)
           \<and> keeps_all_but_default d d'))
   \<and> (isFunction x \<longrightarrow>
        (\<exists>d'. def_method d x s = (Inr d', s) \<and> d_default d' = Some (DValue x)
           \<and> keeps_all_but_default d d'))
   \<and> (\<exists>ra rb h1 h2.
         call_default (DArrayFactory (VArr i xs)) h = Some (VArr ra xs, h1)
         \<and> call_default (DArrayFactory (VArr i xs)) h1 = Some (VArr rb xs, h2)
         \<and> ra \<noteq> rb \<and> (i < h \<longrightarrow> ra \<noteq> i \<and> rb \<noteq> i))
   \<and> (\<exists>ra rb h1 h2.
         call_default (DObjectFactory (VObj i kvs)) h = Some (VObj ra kvs, h1)
         \<and> call_default (DObjectFactory (VObj i kvs)) h1 = Some (VObj rb kvs, h2)
         \<and> ra \<noteq> rb \<and> (i < h \<longrightarrow> ra \<noteq> i \<and> rb \<noteq> i))"
proof (intro conjI impI)
  assume "x = VUndefined \<and> \<not> default_truthy d"
  then show "def_method d x s = (Inr d, s)"
    by (simp add: def_method_def)
next
  assume "\<not> (x = VUndefined \<and> \<not> default_truthy d) \<and> \<not> isFunction x
        \<and> validateType (TDesc d) x False s = (Inr r, s') \<and> \<not> truthy r
        \<and> to_str x = Some shown \<and> text_known x"
  then show "def_method d x s =
          (Inr d, warn ((case d_name d of None \<Rightarrow> ''undefined'' | Some n \<Rightarrow> n)
                        @ '' - invalid default value: '' @ dq @ shown @ dq) s')"
    by (auto simp: def_method_def)
next
  assume "\<not> (x = VUndefined \<and> \<not> default_truthy d) \<and> \<not> isFunction x
        \<and> validateType (TDesc d) x False s = (Inr r, s') \<and> truthy r"
  then show "\<exists>d'. def_method d x s = (Inr d', s')
           \<and> d_default d' = Some (if isArray x then DArrayFactory x
                                   else if isPlainObject x then DObjectFactory x
                                   else DValue x)
           \<and> keeps_all_but_default d d'"
    by (auto simp: def_method_def set_default_def keeps_all_but_default_def)
next
  assume "isFunction x"
  then show "\<exists>d'. def_method d x s = (Inr d', s) \<and> d_default d' = Some (DValue x)
           \<and> keeps_all_but_default d d'"
    by (cases x) (auto simp: def_method_def set_default_def keeps_all_but_default_def)
next
  show "\<exists>ra rb h1 h2.
         call_default (DArrayFactory (VArr i xs)) h = Some (VArr ra xs, h1)
         \<and> call_default (DArrayFactory (VArr i xs)) h1 = Some (VArr rb xs, h2)
         \<and> ra \<noteq> rb \<and> (i < h \<longrightarrow> ra \<noteq> i \<and> rb \<noteq> i)"
    by (simp add: alloc_def)
next
  show "\<exists>ra rb h1 h2.
         call_default (DObjectFactory (VObj i kvs)) h = Some (VObj ra kvs, h1)
         \<and> call_default (DObjectFactory (VObj i kvs)) h1 = Some (VObj rb kvs, h2)
         \<and> ra \<noteq> rb \<and> (i < h \<longrightarrow> ra \<noteq> i \<and> rb \<noteq> i)"
    by (simp add: alloc_def)
qed


theorem c8_def_witness:
  "def_method string_base VUndefined init_state = (Inr string_base, init_state)
   \<and> def_method string_base (VNum (NInt 3)) init_state =
       (Inr string_base,
        \<lparr>bufs = [],
         console = [''[VueTypes warn]: string - value '' @ dq @ ''3'' @ dq
                       @ '' should be of type '' @ dq @ ''String'' @ dq,
                    ''[VueTypes warn]: string - invalid default value: '' @ dq @ ''3'' @ dq]\<rparr>)
   \<and> (\<exists>d'. def_method array_base (VArr 7 [VNum (NInt 1)]) init_state = (Inr d', init_state)
          \<and> d_default d' = Some (DArrayFactory (VArr 7 [VNum (NInt 1)])))
   \<and> (\<exists>d'. def_method vt_any (VObj 3 [(''constructor'', VNum (NInt 5))]) init_state
              = (Inr d', init_state)
          \<and> d_default d' = Some (DValue (VObj 3 [(''constructor'', VNum (NInt 5))])))
   \<and> (\<exists>d'. def_method string_base (VFun 2) init_state = (Inr d', init_state)
          \<and> d_default d' = Some (DValue (VFun 2)))
   \<and> (\<exists>ra rb h1 h2.
         call_default (DArrayFactory (VArr 7 [VNum (NInt 1)])) 8 = Some (VArr ra [VNum (NInt 1)], h1)
         \<and> call_default (DArrayFactory (VArr 7 [VNum (NInt 1)])) h1 = Some (VArr rb [VNum (NInt 1)], h2)
         \<and> ra \<noteq> rb \<and> ra \<noteq> 7 \<and> rb \<noteq> 7)"
proof -
  let ?s1 = "\<lparr>bufs = [],
              console = [''[VueTypes warn]: string - value '' @ dq @ ''3'' @ dq
                         @ '' should be of type '' @ dq @ ''String'' @ dq]\<rparr>"
  let ?o = "VObj 3 [(''constructor'', VNum (NInt 5))]"
  have 1: "VUndefined = VUndefined \<and> \<not> default_truthy string_base"
    by code_simp
  have 2: "\<not> (VNum (NInt 3) = VUndefined \<and> \<not> default_truthy string_base)
        \<and> \<not> isFunction (VNum (NInt 3))
        \<and> validateType (TDesc string_base) (VNum (NInt 3)) False init_state
            = (Inr (VBool False), ?s1)
        \<and> \<not> truthy (VBool False) \<and> to_str (VNum (NInt 3)) = Some ''3''
        \<and> text_known (VNum (NInt 3))"
    by code_simp
  have 3: "\<not> (VArr 7 [VNum (NInt 1)] = VUndefined \<and> \<not> default_truthy array_base)
        \<and> \<not> isFunction (VArr 7 [VNum (NInt 1)])
        \<and> validateType (TDesc array_base) (VArr 7 [VNum (NInt 1)]) False init_state
            = (Inr (VBool True), init_state)
        \<and> truthy (VBool True)"
    by code_simp
  have o3: "\<not> (?o = VUndefined \<and> \<not> default_truthy vt_any)
        \<and> \<not> isFunction ?o
        \<and> validateType (TDesc vt_any) ?o False init_state = (Inr (VBool True), init_state)
        \<and> truthy (VBool True)"
    by code_simp
  have 4: "isFunction (VFun 2)"
    by simp
  have 5: "(7::nat) < 8"
    by simp
  have w: "warn (''string - invalid default value: '' @ dq @ ''3'' @ dq) ?s1 =
       \<lparr>bufs = [],
        console = [''[VueTypes warn]: string - value '' @ dq @ ''3'' @ dq
                      @ '' should be of type '' @ dq @ ''String'' @ dq,
                   ''[VueTypes warn]: string - invalid default value: '' @ dq @ ''3'' @ dq]\<rparr>"
    by (simp add: warn_def)
  have n: "d_name string_base = Some ''string''"
    by (simp add: string_base_def toType_def)
  note t1 = c8_def [where x = VUndefined and d = string_base and s = init_state,
      THEN conjunct1, rule_format, OF 1]
  note t2 = c8_def [where x = "VNum (NInt 3)" and d = string_base and s = init_state
        and r = "VBool False" and s' = ?s1 and shown = "''3''",
      THEN conjunct2, THEN conjunct1, rule_format, OF 2]
  note t3 = c8_def [where x = "VArr 7 [VNum (NInt 1)]" and d = array_base and s = init_state
        and r = "VBool True" and s' = init_state,
      THEN conjunct2, THEN conjunct2, THEN conjunct1, rule_format, OF 3]
  note t3o = c8_def [where x = ?o and d = vt_any and s = init_state
        and r = "VBool True" and s' = init_state,
      THEN conjunct2, THEN conjunct2, THEN conjunct1, rule_format, OF o3]
  note t4 = c8_def [where x = "VFun 2" and d = string_base and s = init_state,
      THEN conjunct2, THEN conjunct2, THEN conjunct2, THEN conjunct1, rule_format, OF 4]
  note t5 = c8_def [where i = 7 and h = 8 and xs = "[VNum (NInt 1)]",
      THEN conjunct2, THEN conjunct2, THEN conjunct2, THEN conjunct2, THEN conjunct1]
  from t2 w n have r2: "def_method string_base (VNum (NInt 3)) init_state =
       (Inr string_base,
        \<lparr>bufs = [],
         console = [''[VueTypes warn]: string - value '' @ dq @ ''3'' @ dq
                       @ '' should be of type '' @ dq @ ''String'' @ dq,
                    ''[VueTypes warn]: string - invalid default value: '' @ dq @ ''3'' @ dq]\<rparr>)"
    by simp
  from t3 have r3: "\<exists>d'. def_method array_base (VArr 7 [VNum (NInt 1)]) init_state = (Inr d', init_state)
          \<and> d_default d' = Some (DArrayFactory (VArr 7 [VNum (NInt 1)]))"
    by auto
  from t3o have r3o: "\<exists>d'. def_method vt_any ?o init_state = (Inr d', init_state)
          \<and> d_default d' = Some (DValue ?o)"
    by auto
  from t4 have r4: "\<exists>d'. def_method string_base (VFun 2) init_state = (Inr d', init_state)
          \<and> d_default d' = Some (DValue (VFun 2))"
    by auto
  from t5 5 have r5: "\<exists>ra rb h1 h2.
         call_default (DArrayFactory (VArr 7 [VNum (NInt 1)])) 8 = Some (VArr ra [VNum (NInt 1)], h1)
         \<and> call_default (DArrayFactory (VArr 7 [VNum (NInt 1)])) h1 = Some (VArr rb [VNum (NInt 1)], h2)
         \<and> ra \<noteq> rb \<and> ra \<noteq> 7 \<and> rb \<noteq> 7"
    by blast
  from t1 r2 r3 r3o r4 r5 show ?thesis
    by (intro conjI)
qed
section \<open>Extending the namespace\<close>

lemma extend_one_keeps: "has reg n \<Longrightarrow> snd (extend_one props reg) n = reg n"
  by (auto simp: extend_one_def has_def split: prod.splits)

lemma extend_keeps:
  "has reg n \<Longrightarrow> snd (extend a reg) n = reg n"
  "has reg n \<Longrightarrow> snd (extend_each ps reg) n = reg n"
proof (induction a reg and ps reg rule: extend_extend_each.induct)
  case (4 p ps reg)
  show ?case
  proof (cases "extend p reg")
    case (Pair res reg')
    with 4 have k: "reg' n = reg n" by simp
    with 4 have h: "has reg' n" by (simp add: has_def)
    show ?thesis
    proof (cases res)
      case (Inl e)
      with Pair k show ?thesis by simp
    next
      case (Inr u)
      with Pair 4(2)[OF Pair[symmetric] Inr h] k show ?thesis by simp
    qed
  qed
qed (simp_all add: extend_one_keeps)

lemma extend_raises:
  "n \<in> set (names_of a) \<Longrightarrow> has reg n \<Longrightarrow> fst (extend a reg) = Inl TypeError"
  "n \<in> set (names_of_each ps) \<Longrightarrow> has reg n \<Longrightarrow> fst (extend_each ps reg) = Inl TypeError"
proof (induction a reg and ps reg rule: extend_extend_each.induct)
  case (2 props reg)
  then show ?case by (simp add: extend_one_def)
next
  case (4 p ps reg)
  show ?case
  proof (cases "extend p reg")
    case (Pair res reg')
    have h: "has reg' n"
      using extend_keeps(1)[OF 4(4), of p] Pair 4(4) by (simp add: has_def)
    show ?thesis
    proof (cases res)
      case (Inl e)
      with Pair show ?thesis by (cases e) simp
    next
      case (Inr u)
      have "n \<notin> set (names_of p)"
        using 4(1)[OF _ 4(4)] Pair Inr by auto
      with 4(3) have "n \<in> set (names_of_each ps)" by simp
      from 4(2)[OF Pair[symmetric] Inr this h] Pair Inr show ?thesis by simp
    qed
  qed
qed simp_all

text \<open>
  C9: \<open>extend\<close> with an options object whose name is already an own property of the
  namespace raises a \<open>TypeError\<close> and leaves the registry as it was. With an array of
  options, any name among them that is already defined makes the call raise, and whatever
  the call does, a name that was defined keeps the entry it had: \<open>extend\<close> only adds.
\<close>

theorem c9_extend_never_overwrites:
  "(has reg (s_name props) \<longrightarrow> extend (One props) reg = (Inl TypeError, reg))
   \<and> (n \<in> set (names_of a) \<and> has reg n \<longrightarrow> fst (extend a reg) = Inl TypeError)
   \<and> (has reg n \<longrightarrow> snd (extend a reg) n = reg n)"
  using extend_raises(1) [of n a reg] extend_keeps(1) [of reg n a]
  by (simp add: extend_one_def)

theorem c9_extend_never_overwrites_witness:
  "extend (One \<lparr>s_name = ''string'', s_validate = False, s_getter = True,
                 s_type = Some (TCtor CString), s_required = None, s_default = None,
                 s_validator = None\<rparr>) init_registry = (Inl TypeError, init_registry)
   \<and> snd (extend (Many [One \<lparr>s_name = ''date'', s_validate = False, s_getter = True,
          s_type = Some (TCtor (CClass ''Date'')), s_required = None, s_default = None,
          s_validator = None\<rparr>,
        One \<lparr>s_name = ''any'', s_validate = True, s_getter = True,
          s_type = None, s_required = None, s_default = None,
          s_validator = None\<rparr>]) init_registry) ''any'' = Some Builtin
   \<and> fst (extend (Many [One \<lparr>s_name = ''date'', s_validate = False, s_getter = True,
          s_type = Some (TCtor (CClass ''Date'')), s_required = None, s_default = None,
          s_validator = None\<rparr>,
        One \<lparr>s_name = ''any'', s_validate = True, s_getter = True,
          s_type = None, s_required = None, s_default = None,
          s_validator = None\<rparr>]) init_registry) = Inl TypeError"
proof -
  let ?p = "\<lparr>s_name = ''string'', s_validate = False, s_getter = True,
                 s_type = Some (TCtor CString), s_required = None, s_default = None,
                 s_validator = None\<rparr>"
  let ?a = "Many [One \<lparr>s_name = ''date'', s_validate = False, s_getter = True,
          s_type = Some (TCtor (CClass ''Date'')), s_required = None, s_default = None,
          s_validator = None\<rparr>,
        One \<lparr>s_name = ''any'', s_validate = True, s_getter = True,
          s_type = None, s_required = None, s_default = None,
          s_validator = None\<rparr>]"
  have 1: "has init_registry (s_name ?p)"
    by (simp add: has_def init_registry_def builtin_names_def)
  have 2: "''any'' \<in> set (names_of ?a) \<and> has init_registry ''any''"
    by (simp add: has_def init_registry_def builtin_names_def)
  have 3: "init_registry ''any'' = Some Builtin"
    by (simp add: init_registry_def builtin_names_def)
  note t1 = c9_extend_never_overwrites [where props = ?p and reg = init_registry,
      THEN conjunct1, rule_format, OF 1]
  note t2 = c9_extend_never_overwrites [where a = ?a and n = "''any''" and reg = init_registry,
      THEN conjunct2, THEN conjunct1, rule_format, OF 2]
  note t3 = c9_extend_never_overwrites [where a = ?a and n = "''any''" and reg = init_registry,
      THEN conjunct2, THEN conjunct2, rule_format, OF conjunct2 [OF 2]]
  from t1 t2 t3 3 show ?thesis
    by simp
qed


lemma call_extend_fails:
  assumes "d_validator p = Some pv"
      and "call_validator (d_name p, d_isLoose p) pv args s = (Inr rp, s1)" and "\<not> truthy rp"
  shows "call_validator ctx (VExtend p child) args s = (Inr rp, s1)"
  using assms by simp

lemma call_extend_passes:
  assumes "d_validator p = Some pv"
      and "call_validator ctx (VExtend p child) args s = (Inr r, s')" and "truthy r"
  shows "\<exists>rp s1. call_validator (d_name p, d_isLoose p) pv args s = (Inr rp, s1) \<and> truthy rp
           \<and> call_validator ctx child args s1 = (Inr r, s')"
  using assms by (auto split: prod.splits sum.splits if_splits)

text \<open>
  C5: let \<open>extend\<close> be called with an unused name and with \<open>type\<close> holding a descriptor of
  the library, the parent. The property is defined, and the descriptor it yields (when
  read, for a getter; when called with arguments \<open>cargs\<close>, for a method) has the name of
  the options, the parent's \<open>type\<close>, \<open>required\<close> and \<open>default\<close> wherever the parent defines
  them, and only the stub for \<open>validate\<close>. If the parent has a validator, the descriptor has
  one too: whenever the parent's validator, run with the parent as \<open>this\<close>, returns a falsy
  value, the derived validator returns that value, whether or not the options bring a
  validator of their own; and whenever the derived validator returns a truthy value, the
  parent's validator returned a truthy value and the value returned is the one of the
  validator of the options (\<open>() => true\<close> when there is none). Both receive the arguments
  of the call of a method first and then the value.
\<close>

theorem c5_extend_inherits:
  assumes "s_type props = Some (TDesc p)" and "d_name p = Some n" and "n \<noteq> []"
      and "\<not> has reg (s_name props)"
  shows "\<exists>reg' d.
      extend (One props) reg = (Inr (), reg')
    \<and> (if s_getter props then get_type reg' (s_name props)
        else call_type reg' (s_name props) cargs) = Some d
    \<and> d_name d = Some (s_name props)
    \<and> (\<forall>t. d_type p = Some t \<and> t \<noteq> TUndefined \<longrightarrow> d_type d = Some t)
    \<and> (\<forall>b. d_required p = Some b \<longrightarrow> d_required d = Some b)
    \<and> (\<forall>dv. d_default p = Some dv \<and> dv \<noteq> DValue VUndefined \<longrightarrow> d_default d = Some dv)
    \<and> \<not> d_validate d
    \<and> (\<forall>pv. d_validator p = Some pv \<longrightarrow>
          (\<exists>f. d_validator d = Some f
            \<and> (\<forall>v s rp s1.
                  call_validator (d_name p, d_isLoose p) pv
                      ((if s_getter props then [] else cargs) @ [v]) s = (Inr rp, s1)
                  \<and> \<not> truthy rp \<longrightarrow>
                  call_validator (d_name d, d_isLoose d) f [v] s = (Inr rp, s1))
            \<and> (\<forall>v s r s'.
                  call_validator (d_name d, d_isLoose d) f [v] s = (Inr r, s') \<and> truthy r \<longrightarrow>
                  (\<exists>rp s1.
                     call_validator (d_name p, d_isLoose p) pv
                         ((if s_getter props then [] else cargs) @ [v]) s = (Inr rp, s1)
                     \<and> truthy rp
                     \<and> call_validator (d_name d, d_isLoose d)
                         (case s_validator props of None \<Rightarrow> VStubTrue | Some c \<Rightarrow> c)
                         ((if s_getter props then [] else cargs) @ [v]) s1 = (Inr r, s')))))"
proof -
  let ?child = "case s_validator props of None \<Rightarrow> VStubTrue | Some c \<Rightarrow> c"
  obtain opts where opts: "inherit props = (opts, False)"
    and oty: "\<And>t. d_type p = Some t \<Longrightarrow> t \<noteq> TUndefined \<Longrightarrow> d_type opts = Some t"
    and oreq: "\<And>b. d_required p = Some b \<Longrightarrow> d_required opts = Some b"
    and odef: "\<And>dv. d_default p = Some dv \<Longrightarrow> dv \<noteq> DValue VUndefined \<Longrightarrow> d_default opts = Some dv"
    and oval: "\<And>pv. d_validator p = Some pv \<Longrightarrow> d_validator opts = Some (VExtend p ?child)"
    and oloose: "d_isLoose opts = None"
    using assms(1-3)
    by (auto simp: inherit_def parent_of_def Let_def split: option.splits tyval.splits dflt.splits jsval.splits)
  let ?reg = "reg(s_name props \<mapsto>
                       (if s_getter props then Getter (s_name props) opts False
                        else Method (s_name props) opts False (d_validator opts)))"
  have ext: "extend (One props) reg = (Inr (), ?reg)"
    using assms(4) opts by (simp add: extend_one_def)
  show ?thesis
  proof (cases "s_getter props")
    case True
    let ?d = "toType (s_name props) opts False"
    have g: "get_type ?reg (s_name props) = Some ?d"
      using True by (simp add: get_type_def)
    have v: "\<exists>f. d_validator ?d = Some f
            \<and> (\<forall>v s rp s1.
                  call_validator (d_name p, d_isLoose p) pv ([] @ [v]) s = (Inr rp, s1)
                  \<and> \<not> truthy rp \<longrightarrow>
                  call_validator (d_name ?d, d_isLoose ?d) f [v] s = (Inr rp, s1))
            \<and> (\<forall>v s r s'.
                  call_validator (d_name ?d, d_isLoose ?d) f [v] s = (Inr r, s') \<and> truthy r \<longrightarrow>
                  (\<exists>rp s1.
                     call_validator (d_name p, d_isLoose p) pv ([] @ [v]) s = (Inr rp, s1)
                     \<and> truthy rp
                     \<and> call_validator (d_name ?d, d_isLoose ?d) ?child ([] @ [v]) s1 = (Inr r, s')))"
      if pv: "d_validator p = Some pv" for pv
    proof (rule exI, intro conjI allI impI)
      show "d_validator ?d = Some (VExtend p ?child)"
        using oval [OF pv] by (simp add: toType_def)
    next
      fix v s rp s1
      assume "call_validator (d_name p, d_isLoose p) pv ([] @ [v]) s = (Inr rp, s1) \<and> \<not> truthy rp"
      then show "call_validator (d_name ?d, d_isLoose ?d) (VExtend p ?child) [v] s = (Inr rp, s1)"
        using call_extend_fails [OF pv, of "[v]" s rp s1] by simp
    next
      fix v s r s'
      assume "call_validator (d_name ?d, d_isLoose ?d) (VExtend p ?child) [v] s = (Inr r, s') \<and> truthy r"
      then show "\<exists>rp s1.
                     call_validator (d_name p, d_isLoose p) pv ([] @ [v]) s = (Inr rp, s1)
                     \<and> truthy rp
                     \<and> call_validator (d_name ?d, d_isLoose ?d) ?child ([] @ [v]) s1 = (Inr r, s')"
        using call_extend_passes [OF pv, of "(d_name ?d, d_isLoose ?d)" ?child "[v]" s r s'] by simp
    qed
    show ?thesis
      by (rule exI [of _ ?reg], rule exI [of _ ?d])
         (use ext g True oty oreq odef v in \<open>simp add: toType_def\<close>)
  next
    case False
    let ?ret = "toType (s_name props) opts False"
    let ?d = "case d_validator opts of
                     None \<Rightarrow> ?ret
                   | Some f \<Rightarrow> Desc (d_name ?ret) (d_type ?ret) (d_required ?ret) (d_default ?ret)
                                    (Some (VBound f cargs)) (d_validate ?ret) (d_isLoose ?ret)"
    have g: "call_type ?reg (s_name props) cargs = Some ?d"
      using False by (simp add: call_type_def Let_def)
    have fields: "d_name ?d = Some (s_name props)" "d_type ?d = d_type opts"
      "d_required ?d = d_required opts" "d_default ?d = d_default opts" "\<not> d_validate ?d"
      "d_isLoose ?d = None"
      using oloose by (simp_all add: toType_def split: option.splits)
    have v: "\<exists>f. d_validator ?d = Some f
            \<and> (\<forall>v s rp s1.
                  call_validator (d_name p, d_isLoose p) pv (cargs @ [v]) s = (Inr rp, s1)
                  \<and> \<not> truthy rp \<longrightarrow>
                  call_validator (d_name ?d, d_isLoose ?d) f [v] s = (Inr rp, s1))
            \<and> (\<forall>v s r s'.
                  call_validator (d_name ?d, d_isLoose ?d) f [v] s = (Inr r, s') \<and> truthy r \<longrightarrow>
                  (\<exists>rp s1.
                     call_validator (d_name p, d_isLoose p) pv (cargs @ [v]) s = (Inr rp, s1)
                     \<and> truthy rp
                     \<and> call_validator (d_name ?d, d_isLoose ?d) ?child (cargs @ [v]) s1 = (Inr r, s')))"
      if pv: "d_validator p = Some pv" for pv
    proof (rule exI, intro conjI allI impI)
      show "d_validator ?d = Some (VBound (VExtend p ?child) cargs)"
        using oval [OF pv] by (simp add: toType_def)
    next
      fix v s rp s1
      assume "call_validator (d_name p, d_isLoose p) pv (cargs @ [v]) s = (Inr rp, s1) \<and> \<not> truthy rp"
      then show "call_validator (d_name ?d, d_isLoose ?d) (VBound (VExtend p ?child) cargs) [v] s
                 = (Inr rp, s1)"
        using call_extend_fails [OF pv, of "cargs @ [v]" s rp s1] by simp
    next
      fix v s r s'
      assume "call_validator (d_name ?d, d_isLoose ?d) (VBound (VExtend p ?child) cargs) [v] s
               = (Inr r, s') \<and> truthy r"
      then show "\<exists>rp s1.
                     call_validator (d_name p, d_isLoose p) pv (cargs @ [v]) s = (Inr rp, s1)
                     \<and> truthy rp
                     \<and> call_validator (d_name ?d, d_isLoose ?d) ?child (cargs @ [v]) s1 = (Inr r, s')"
        using call_extend_passes [OF pv, of "(d_name ?d, d_isLoose ?d)" ?child "cargs @ [v]" s r s']
        by simp
    qed
    show ?thesis
      by (rule exI [of _ ?reg], rule exI [of _ ?d])
         (use ext g False oty oreq odef v fields in \<open>simp\<close>)
  qed
qed


theorem c5_extend_inherits_witness:
  "\<exists>reg' d.
      extend (One \<lparr>s_name = ''whole'', s_validate = True, s_getter = True,
                    s_type = Some (TDesc (set_default (isRequired integer_base)
                                            (DValue (VNum (NInt 0))))),
                    s_required = None, s_default = None, s_validator = None\<rparr>) init_registry
        = (Inr (), reg')
    \<and> get_type reg' ''whole'' = Some d
    \<and> d_type d = Some (TCtor CNumber) \<and> d_required d = Some True
    \<and> d_default d = Some (DValue (VNum (NInt 0))) \<and> \<not> d_validate d
    \<and> (\<exists>f. d_validator d = Some f
          \<and> call_validator (d_name d, d_isLoose d) f [VNum (NOther ''1.5'')] init_state
              = (Inr (VBool False), init_state))"
proof -
  let ?p = "set_default (isRequired integer_base) (DValue (VNum (NInt 0)))"
  let ?props = "\<lparr>s_name = ''whole'', s_validate = True, s_getter = True,
                    s_type = Some (TDesc ?p),
                    s_required = None, s_default = None, s_validator = None\<rparr>"
  have p: "?p = Desc (Some ''integer'') (Some (TCtor CNumber)) (Some True)
                     (Some (DValue (VNum (NInt 0)))) (Some VInteger) False None"
    by (simp add: set_default_def isRequired_def integer_base_def toType_def obj_lit_def)
  have h1: "s_type ?props = Some (TDesc ?p)" by simp
  have h2: "d_name ?p = Some ''integer''" by (simp add: p)
  have h3: "''integer'' \<noteq> []" by simp
  have h4: "\<not> has init_registry (s_name ?props)"
    by (simp add: has_def init_registry_def builtin_names_def)
  have v: "call_validator (d_name ?p, d_isLoose ?p) VInteger ([] @ [VNum (NOther ''1.5'')]) init_state
       = (Inr (VBool False), init_state) \<and> \<not> truthy (VBool False)"
    by (simp add: arg0_def)
  from c5_extend_inherits [OF h1 h2 h3 h4, of "[]"] show ?thesis
    apply (elim exE conjE)
    subgoal for reg' d
      apply (rule exI [of _ reg'], rule exI [of _ d])
      apply (simp add: p arg0_def)
      apply (elim exE conjE)
      subgoal for f
        apply (drule spec [of _ "VNum (NOther ''1.5'')"])
        apply auto
        done
      done
    done
qed


section \<open>Results do not depend on the diagnostic state\<close>

lemma validateType_stages:
  "validateType t v silent s =
     (case type_stage (plain_or_wrapped t) v s of
        (Inl e, s1) \<Rightarrow> (Inl e, s1)
      | (Inr (Done r), s1) \<Rightarrow> (Inr r, s1)
      | (Inr (Checked valid expectedType), s1) \<Rightarrow>
          if \<not> valid then type_mismatch (plain_or_wrapped t) v expectedType silent s1
          else (case d_validator (plain_or_wrapped t) of
                  None \<Rightarrow> (Inr (VBool True), s1)
                | Some f \<Rightarrow>
                    (case call_validator (d_name (plain_or_wrapped t), d_isLoose (plain_or_wrapped t))
                            f [v] (s1\<lparr>bufs := [] # bufs s1\<rparr>) of
                       (Inl e, s2) \<Rightarrow> (Inl e, s2)
                     | (Inr r, s2) \<Rightarrow>
                         after_validator r (hd (bufs s2)) silent (s2\<lparr>bufs := tl (bufs s2)\<rparr>))))"
  unfolding validateType.simps [of t v silent s] type_stage_def type_mismatch_def
            after_validator_def namePrefix_def Let_def
  by (rule refl)


lemma emit_Nil [simp]: "emit [] s = s"
  by (simp add: emit_def)

lemma emit_append: "emit (a @ b) s = emit b (emit a s)"
  by (simp add: emit_def)

lemma emit_single: "emit [m] s = warn m s"
  by (simp add: emit_def)

lemma emit_push: "bufs s = b # bs \<Longrightarrow> emit msgs s = s\<lparr>bufs := (b @ msgs) # bs\<rparr>"
proof (induction msgs arbitrary: s b)
  case Nil
  then show ?case by simp
next
  case (Cons m msgs)
  have "emit (m # msgs) s = emit msgs (warn m s)"
    by (simp add: emit_def)
  also have "warn m s = s\<lparr>bufs := (b @ [m]) # bs\<rparr>"
    using Cons.prems by (simp add: warn_def)
  also have "emit msgs (s\<lparr>bufs := (b @ [m]) # bs\<rparr>) = s\<lparr>bufs := (b @ m # msgs) # bs\<rparr>"
    using Cons.IH [of "s\<lparr>bufs := (b @ [m]) # bs\<rparr>" "b @ [m]"] by simp
  finally show ?case .
qed

lemma uniformI:
  "(\<And>s. fst (f s) = res) \<Longrightarrow> (\<And>s. isl res \<or> snd (f s) = emit msgs s) \<Longrightarrow> uniform f"
  unfolding uniform_def by blast

lemma uniform_const [simp]: "uniform (\<lambda>s. (res, s))"
  by (rule uniformI [where msgs = "[]"]) simp_all

lemma uniform_warn [simp]: "uniform (\<lambda>s. (res, warn m s))"
  by (rule uniformI [where msgs = "[m]"]) (simp_all add: emit_single)

lemma uniform_warn_if [simp]: "uniform (\<lambda>s. (res, if c then warn m s else s))"
  by (cases c) simp_all

lemma uniform_if:
  "(c \<Longrightarrow> uniform f) \<Longrightarrow> (\<not> c \<Longrightarrow> uniform g) \<Longrightarrow> uniform (\<lambda>s. if c then f s else g s)"
  by (cases c) simp_all

lemma uniform_bind:
  assumes f: "uniform f"
      and g: "\<And>r s1. f s0 = (Inr r, s1) \<Longrightarrow> uniform (g r)"
  shows "uniform (\<lambda>s. case f s of (Inl e, s') \<Rightarrow> (Inl e, s') | (Inr r, s') \<Rightarrow> g r s')"
proof -
  from f obtain res msgs where
    res: "\<And>s. fst (f s) = res" and st: "\<And>s. isl res \<or> snd (f s) = emit msgs s"
    unfolding uniform_def by blast
  show ?thesis
  proof (cases res)
    case (Inl e)
    have "\<And>s. f s = (Inl e, snd (f s))"
      using res Inl by (metis prod.collapse)
    then have "\<And>s. fst (case f s of (Inl e, s') \<Rightarrow> (Inl e, s') | (Inr r, s') \<Rightarrow> g r s') = Inl e"
      by (simp split: prod.splits sum.splits) (metis Inl_Inr_False fst_conv sum.inject(1))
    then show ?thesis
      by (intro uniformI [where res = "Inl e" and msgs = "[]"]) simp_all
  next
    case (Inr r)
    have fs: "\<And>s. f s = (Inr r, emit msgs s)"
      using res st Inr by (metis isl_def prod.collapse sum.distinct(1))
    from g [OF fs] obtain res' msgs' where
      res': "\<And>s. fst (g r s) = res'" and st': "\<And>s. isl res' \<or> snd (g r s) = emit msgs' s"
      unfolding uniform_def by blast
    show ?thesis
      by (rule uniformI [where res = res' and msgs = "msgs @ msgs'"])
         (use fs res' st' in \<open>auto simp: emit_append\<close>)
  qed
qed

lemma uniform_after_validator [simp]: "uniform (after_validator r warnLog silent)"
  unfolding after_validator_def Let_def
  by (cases "truthy r"; cases silent; cases "warnLog = []") simp_all

lemma uniform_type_mismatch [simp]: "uniform (type_mismatch d v expectedType silent)"
  unfolding type_mismatch_def Let_def
  by (cases "to_str v"; cases silent) simp_all

lemma uniform_scoped:
  assumes f: "uniform f"
  shows "uniform (\<lambda>s. case f (s\<lparr>bufs := [] # bufs s\<rparr>) of
                        (Inl e, s2) \<Rightarrow> (Inl e, s2)
                      | (Inr r, s2) \<Rightarrow>
                          after_validator r (hd (bufs s2)) silent (s2\<lparr>bufs := tl (bufs s2)\<rparr>))"
proof -
  from f obtain res msgs where
    res: "\<And>s. fst (f s) = res" and st: "\<And>s. isl res \<or> snd (f s) = emit msgs s"
    unfolding uniform_def by blast
  show ?thesis
  proof (cases res)
    case (Inl e)
    have "\<And>s. f s = (Inl e, snd (f s))"
      using res Inl by (metis prod.collapse)
    then have "\<And>s. fst (case f (s\<lparr>bufs := [] # bufs s\<rparr>) of
                        (Inl e, s2) \<Rightarrow> (Inl e, s2)
                      | (Inr r, s2) \<Rightarrow>
                          after_validator r (hd (bufs s2)) silent (s2\<lparr>bufs := tl (bufs s2)\<rparr>)) = Inl e"
      by (simp split: prod.splits sum.splits) (metis Inl_Inr_False fst_conv sum.inject(1))
    then show ?thesis
      by (intro uniformI [where res = "Inl e" and msgs = "[]"]) simp_all
  next
    case (Inr r)
    have fs: "\<And>s. f s = (Inr r, emit msgs s)"
      using res st Inr by (metis isl_def prod.collapse sum.distinct(1))
    have "f (s\<lparr>bufs := [] # bufs s\<rparr>) = (Inr r, s\<lparr>bufs := msgs # bufs s\<rparr>)" for s
      using fs [of "s\<lparr>bufs := [] # bufs s\<rparr>"]
            emit_push [of "s\<lparr>bufs := [] # bufs s\<rparr>" "[]" "bufs s" msgs] by simp
    then have "(\<lambda>s. case f (s\<lparr>bufs := [] # bufs s\<rparr>) of
                        (Inl e, s2) \<Rightarrow> (Inl e, s2)
                      | (Inr r, s2) \<Rightarrow>
                          after_validator r (hd (bufs s2)) silent (s2\<lparr>bufs := tl (bufs s2)\<rparr>))
          = after_validator r msgs silent"
      by (simp add: fun_eq_iff)
    then show ?thesis by simp
  qed
qed

lemma uniform_cong: "(\<And>s. f s = g s) \<Longrightarrow> uniform g \<Longrightarrow> uniform f"
  by (simp add: uniform_def)

lemma uniform_all:
  fixes s :: wstate
  shows "uniform (validateType t v silent)"
    and "uniform (type_some ts v)"
    and "uniform (call_validator ctx f args)"
    and "uniform (every_valid t xs)"
    and "uniform (oneOfType_some arr v)"
    and "uniform (shape_every obj keys lo kvs vks)"
proof (induction t v silent s and ts v s and ctx f args s and t xs s and arr v s
         and obj keys lo kvs vks s
       rule: validateType_type_some_call_validator_every_valid_oneOfType_some_shape_every.induct)
  case (1 t v silent s)
  let ?d = "plain_or_wrapped t"
  have ts: "uniform (type_stage ?d v)"
  proof (rule uniform_cong [OF type_stage_def], intro uniform_if)
    assume h: "has_type ?d" "\<not> type_undefined ?d"
              "\<not> (d_required ?d \<noteq> Some True \<and> v = VUndefined)"
    show "uniform (\<lambda>s. case d_type ?d of
             Some (TArray ts) \<Rightarrow>
               (case type_some ts v s of
                  (Inl e, s') \<Rightarrow> (Inl e, s')
                | (Inr valid, s') \<Rightarrow>
                    (Inr (Checked valid
                           (join_strs '' or '' (map (\<lambda>ty. case getType ty of None \<Rightarrow> [] | Some n \<Rightarrow> n) ts))),
                     s'))
           | _ \<Rightarrow> (native_check ?d v, s))"
    proof (cases "\<exists>ts. d_type ?d = Some (TArray ts)")
      case False
      then show ?thesis
      proof (cases "d_type ?d")
        case None
        then show ?thesis by simp
      next
        case (Some ty)
        with False show ?thesis by (cases ty) simp_all
      qed
    next
      case True
      then obtain ts where ts: "d_type ?d = Some (TArray ts)" by blast
      have u: "uniform (type_some ts v)"
        using "1.IH"(1) [OF refl refl h ts refl] .
      have "uniform (\<lambda>s. case type_some ts v s of
                  (Inl e, s') \<Rightarrow> (Inl e, s')
                | (Inr valid, s') \<Rightarrow>
                    (Inr (Checked valid
                           (join_strs '' or '' (map (\<lambda>ty. case getType ty of None \<Rightarrow> [] | Some n \<Rightarrow> n) ts))),
                     s'))"
        by (rule uniform_bind [OF u, where ?s0.0 = s]) simp
      with ts show ?thesis
        by simp
    qed
  qed simp_all
  have "uniform (\<lambda>s. case type_stage ?d v s of
        (Inl e, s1) \<Rightarrow> (Inl e, s1)
      | (Inr c, s1) \<Rightarrow>
         (case c of Done r \<Rightarrow> (Inr r, s1)
          | Checked valid expectedType \<Rightarrow>
          if \<not> valid then type_mismatch ?d v expectedType silent s1
          else (case d_validator ?d of
                  None \<Rightarrow> (Inr (VBool True), s1)
                | Some f \<Rightarrow>
                    (case call_validator (d_name ?d, d_isLoose ?d)
                            f [v] (s1\<lparr>bufs := [] # bufs s1\<rparr>) of
                       (Inl e, s2) \<Rightarrow> (Inl e, s2)
                     | (Inr r, s2) \<Rightarrow>
                         after_validator r (hd (bufs s2)) silent (s2\<lparr>bufs := tl (bufs s2)\<rparr>)))))"
  proof (rule uniform_bind [OF ts, where ?s0.0 = s])
    fix c s1
    assume eq: "type_stage ?d v s = (Inr c, s1)"
    show "uniform (\<lambda>s1. case c of Done r \<Rightarrow> (Inr r, s1)
          | Checked valid expectedType \<Rightarrow>
          if \<not> valid then type_mismatch ?d v expectedType silent s1
          else (case d_validator ?d of
                  None \<Rightarrow> (Inr (VBool True), s1)
                | Some f \<Rightarrow>
                    (case call_validator (d_name ?d, d_isLoose ?d)
                            f [v] (s1\<lparr>bufs := [] # bufs s1\<rparr>) of
                       (Inl e, s2) \<Rightarrow> (Inl e, s2)
                     | (Inr r, s2) \<Rightarrow>
                         after_validator r (hd (bufs s2)) silent (s2\<lparr>bufs := tl (bufs s2)\<rparr>))))"
    proof (cases c)
      case (Done r)
      then show ?thesis by simp
    next
      case (Checked valid expectedType)
      show ?thesis
      proof (cases valid)
        case False
        with Checked show ?thesis by simp
      next
        case True
        show ?thesis
        proof (cases "d_validator ?d")
          case None
          with Checked True show ?thesis by simp
        next
          case (Some f)
          have "uniform (call_validator (d_name ?d, d_isLoose ?d) f [v])"
            using "1.IH"(2) [OF refl refl refl eq [symmetric, unfolded type_stage_def] refl Checked _ Some]
                  True by simp
          from uniform_scoped [OF this, of silent] Checked True Some show ?thesis
            by simp
        qed
      qed
    qed
  qed
  then show ?case
    by (rule uniform_cong [rotated]) (simp add: validateType_stages split: prod.splits sum.splits tcheck.splits)
next
  case (2 v s)
  show ?case by (rule uniform_cong [OF type_some.simps(1)]) simp
next
  case (3 t ts v s)
  show ?case
  proof (rule uniform_cong [OF type_some.simps(2)], rule uniform_bind [OF "3.IH"(1), where ?s0.0 = s])
    fix r s1
    assume "validateType t v True s = (Inr r, s1)"
    then show "uniform (\<lambda>s'. if r = VBool True then (Inr True, s') else type_some ts v s')"
      using "3.IH"(2) [of "Inr r" s1 r] by (cases "r = VBool True") simp_all
  qed
next
  case (4 ctx args s)
  show ?case by (rule uniform_cong [OF call_validator.simps(1)]) simp
next
  case (5 ctx args s)
  show ?case by (rule uniform_cong [OF call_validator.simps(2)]) simp
next
  case (6 ctx validatorFn warnMsg args s)
  show ?case
    by (rule uniform_cong [OF call_validator.simps(3)])
       (cases "validatorFn (arg0 args)"; simp)
next
  case (7 ctx arr msg args s)
  show ?case
    by (rule uniform_cong [OF call_validator.simps(4)])
       (cases "arr_includes arr (arg0 args)"; simp)
next
  case (8 ctx arr args s)
  show ?case
  proof (rule uniform_cong [OF call_validator.simps(5)], rule uniform_bind [OF "8.IH", where ?s0.0 = s])
    fix valid s1
    show "uniform (\<lambda>s'. if \<not> valid then
           (case to_str (arg0 args) of
              None \<Rightarrow> (Inl TypeError, s')
            | Some shown \<Rightarrow>
                (Inr (VBool False),
                 warn (''oneOfType - value '' @ dq @ shown @ dq
                       @ '' does not match any of the passed-in validators.'') s'))
         else (Inr (VBool True), s'))"
      by (cases valid; cases "to_str (arg0 args)") simp_all
  qed
next
  case (9 ctx t args s)
  show ?case
  proof (cases "\<exists>i xs. arg0 args = VArr i xs")
    case False
    then show ?thesis
      by (intro uniform_cong [OF call_validator.simps(6)]) (cases "arg0 args"; simp)
  next
    case True
    then obtain i xs where a: "arg0 args = VArr i xs" by blast
    have "uniform (\<lambda>s. case every_valid t xs s of
            (Inl e, s') \<Rightarrow> (Inl e, s')
          | (Inr valid, s') \<Rightarrow>
              (Inr (VBool valid),
               if \<not> valid
               then warn (''arrayOf - value must be an array of '' @ dq @ show_name (getType t) @ dq) s'
               else s'))"
    proof (rule uniform_bind [OF "9.IH" [OF a], where ?s0.0 = s])
      fix valid s1
      show "uniform (\<lambda>s'. (Inr (VBool valid),
               if \<not> valid
               then warn (''arrayOf - value must be an array of '' @ dq @ show_name (getType t) @ dq) s'
               else s'))"
        by (cases valid) simp_all
    qed
    with a show ?thesis
      by (intro uniform_cong [OF call_validator.simps(6)]) simp
  qed
next
  case (10 ctx t args s)
  show ?case
  proof (cases "own_entries (arg0 args)")
    case None
    then show ?thesis
      by (intro uniform_cong [OF call_validator.simps(7)]) simp
  next
    case (Some kvs)
    have "uniform (\<lambda>s. case every_valid t (map snd kvs) s of
            (Inl e, s') \<Rightarrow> (Inl e, s')
          | (Inr valid, s') \<Rightarrow>
              (Inr (VBool valid),
               if \<not> valid
               then warn (''objectOf - value must be an object of '' @ dq @ show_name (getType t) @ dq) s'
               else s'))"
    proof (rule uniform_bind [OF "10.IH" [OF Some], where ?s0.0 = s])
      fix valid s1
      show "uniform (\<lambda>s'. (Inr (VBool valid),
               if \<not> valid
               then warn (''objectOf - value must be an object of '' @ dq @ show_name (getType t) @ dq) s'
               else s'))"
        by (cases valid) simp_all
    qed
    with Some show ?thesis
      by (intro uniform_cong [OF call_validator.simps(7)]) simp
  qed
next
  case (11 ctx obj keys requiredKeys args s)
  show ?case
  proof (cases "isPlainObject (arg0 args)")
    case False
    then show ?thesis
      by (intro uniform_cong [OF call_validator.simps(8)]) simp
  next
    case True
    then obtain i kvs where a: "arg0 args = VObj i kvs" by (cases "arg0 args") simp_all
    from True a have po: "isPlainObject (VObj i kvs)" by simp
    from True have nn: "\<not> \<not> isPlainObject (arg0 args)" by simp
    show ?thesis
    proof (rule uniform_cong [OF call_validator.simps(8)],
           simp only: a po not_True_eq_False if_False jsval.case Let_def,
           rule uniform_if)
      assume "\<not> (requiredKeys \<noteq> [] \<and> list_ex (\<lambda>req. req \<notin> set (map fst kvs)) requiredKeys)"
      from "11.IH" [OF nn a refl this]
      show "uniform (\<lambda>s. case shape_every obj keys (snd ctx) kvs (map fst kvs) s of
                     (Inl e, s') \<Rightarrow> (Inl e, s')
                   | (Inr valid, s') \<Rightarrow> (Inr (VBool valid), s'))"
        by (rule uniform_bind [where ?s0.0 = s]) simp
    qed simp
  qed
next
  case (12 ctx parent validator args s)
  show ?case
  proof (cases "d_validator parent")
    case None
    then show ?thesis
      by (intro uniform_cong [OF call_validator.simps(9)]) simp
  next
    case (Some pv)
    have "uniform (\<lambda>s. case call_validator (d_name parent, d_isLoose parent) pv args s of
            (Inl e, s') \<Rightarrow> (Inl e, s')
          | (Inr r, s') \<Rightarrow> if truthy r then call_validator ctx validator args s' else (Inr r, s'))"
    proof (rule uniform_bind [OF "12.IH"(1) [OF Some], where ?s0.0 = s])
      fix r s1
      assume "call_validator (d_name parent, d_isLoose parent) pv args s = (Inr r, s1)"
      then show "uniform (\<lambda>s'. if truthy r then call_validator ctx validator args s' else (Inr r, s'))"
        using "12.IH"(2) [OF Some, of "Inr r" s1 r] by (cases "truthy r") simp_all
    qed
    with Some show ?thesis
      by (intro uniform_cong [OF call_validator.simps(9)]) simp
  qed
next
  case (13 ctx validator bound args s)
  then show ?case
    by (intro uniform_cong [OF call_validator.simps(10)])
next
  case (14 ctx f args s)
  show ?case by (rule uniform_cong [OF call_validator.simps(11)]) simp
next
  case (15 ctx args s)
  show ?case by (rule uniform_cong [OF call_validator.simps(12)]) simp
next
  case (16 t s)
  show ?case by (rule uniform_cong [OF every_valid.simps(1)]) simp
next
  case (17 t x xs s)
  show ?case
  proof (rule uniform_cong [OF every_valid.simps(2)], rule uniform_bind [OF "17.IH"(1), where ?s0.0 = s])
    fix r s1
    assume "validateType t x False s = (Inr r, s1)"
    then show "uniform (\<lambda>s'. if truthy r then every_valid t xs s' else (Inr False, s'))"
      using "17.IH"(2) [of "Inr r" s1 r] by (cases "truthy r") simp_all
  qed
next
  case (18 v s)
  show ?case by (rule uniform_cong [OF oneOfType_some.simps(1)]) simp
next
  case (19 ty rest v s)
  show ?case
  proof (cases "nullish ty")
    case True
    then show ?thesis
      by (intro uniform_cong [OF oneOfType_some.simps(2)]) simp
  next
    case False
    have "uniform (\<lambda>s. case validateType (oneOf_strip ty) v True s of
             (Inl e, s') \<Rightarrow> (Inl e, s')
           | (Inr r, s') \<Rightarrow> if r = VBool True then (Inr True, s') else oneOfType_some rest v s')"
    proof (rule uniform_bind [OF "19.IH"(1) [OF False], where ?s0.0 = s])
      fix r s1
      assume "validateType (oneOf_strip ty) v True s = (Inr r, s1)"
      then show "uniform (\<lambda>s'. if r = VBool True then (Inr True, s') else oneOfType_some rest v s')"
        using "19.IH"(2) [OF False, of "Inr r" s1 r] by (cases "r = VBool True") simp_all
    qed
    with False show ?thesis
      by (intro uniform_cong [OF oneOfType_some.simps(2)]) simp
  qed
next
  case (20 obj keys loose kvs s)
  show ?case by (rule uniform_cong [OF shape_every.simps(1)]) simp
next
  case (21 obj keys loose kvs key rest s)
  show ?case
  proof (cases "key \<in> set keys")
    case False
    then show ?thesis
      using "21.IH"(1)
      by (intro uniform_cong [OF shape_every.simps(2)]) (cases "loose = Some True"; simp)
  next
    case True
    have "uniform (\<lambda>s. case validateType (field_type obj key) (get_prop kvs key) True s of
          (Inl e, s') \<Rightarrow> (Inl e, s')
        | (Inr valid, s') \<Rightarrow>
            (let s'' = (case valid of
                          VStr m \<Rightarrow> warn (''shape - '' @ dq @ key @ dq
                                          @ '' property validation error:'' @ nl @ '' * '' @ m) s'
                        | _ \<Rightarrow> s')
             in if valid = VBool True then shape_every obj keys loose kvs rest s''
                else (Inr False, s'')))"
    proof (rule uniform_bind [OF "21.IH"(2), where ?s0.0 = s])
      show "\<not> key \<notin> set keys" using True by simp
    next
      fix valid s1
      assume eq: "validateType (field_type obj key) (get_prop kvs key) True s = (Inr valid, s1)"
      have nk: "\<not> key \<notin> set keys" using True by simp
      have r: "uniform (shape_every obj keys loose kvs rest)" if "valid = VBool True"
        using "21.IH"(3) [OF nk eq [symmetric] refl refl that] .
      show "uniform (\<lambda>s'. let s'' = (case valid of
                          VStr m \<Rightarrow> warn (''shape - '' @ dq @ key @ dq
                                          @ '' property validation error:'' @ nl @ '' * '' @ m) s'
                        | _ \<Rightarrow> s')
             in if valid = VBool True then shape_every obj keys loose kvs rest s''
                else (Inr False, s''))"
        using r by (cases valid) (simp_all add: Let_def uniform_if)
    qed
    with True show ?thesis
      by (intro uniform_cong [OF shape_every.simps(2)]) simp
  qed
qed

lemma validateType_result_independent:
  "fst (validateType t v silent s) = fst (validateType t v silent s')"
  using uniform_all(1) [of t v silent] unfolding uniform_def by metis

lemma accepts_iff: "fst (validateType t v True s) = Inr (VBool True) \<longleftrightarrow> accepts t v"
  unfolding accepts_def using validateType_result_independent [of t v True s init_state] by simp

lemma raises_iff: "isl (fst (validateType t v True s)) \<longleftrightarrow> raises t v"
  unfolding raises_def using validateType_result_independent [of t v True s init_state] by simp

lemma bufs_warn: "length (bufs (warn m s)) = length (bufs s) \<and> tl (bufs (warn m s)) = tl (bufs s)"
  by (simp add: warn_def split: list.splits)

lemma bufs_emit: "length (bufs (emit msgs s)) = length (bufs s) \<and> tl (bufs (emit msgs s)) = tl (bufs s)"
  by (induction msgs arbitrary: s) (simp_all add: emit_def bufs_warn)

lemma sink_restored_on_return:
  assumes "validateType t v silent s = (Inr r, s')"
  shows "length (bufs s') = length (bufs s) \<and> tl (bufs s') = tl (bufs s)"
proof -
  from uniform_all(1) [of t v silent] obtain res msgs where
    "\<And>s. fst (validateType t v silent s) = res \<and> (isl res \<or> snd (validateType t v silent s) = emit msgs s)"
    unfolding uniform_def by blast
  from this [of s] assms have "s' = emit msgs s" by auto
  then show ?thesis by (simp add: bufs_emit)
qed

section \<open>The sink when a validator raises\<close>

text \<open>
  C4 says that the sink in place before a call of \<open>validateType\<close> is in place after it
  even when the validator raises. When the call returns, this holds
  (\<open>sink_restored_on_return\<close>). When the validator raises it does not: \<open>warn = oldWarn\<close>
  is an ordinary statement after the call of the validator, without \<open>try\<close>/\<open>finally\<close>.
  \<open>custom(longer)\<close>, where \<open>longer\<close> reads \<open>v.length\<close>, raises on \<open>null\<close>; after the call
  the sink is still the buffer, and the diagnostic of a later, unrelated validation goes
  into that buffer and not to the console.
\<close>

theorem c4_sink_not_restored_on_throw:
  "(case custom (Callable ''longer''
           (\<lambda>v. case v of VStr t \<Rightarrow> Inr (VBool (3 < length t))
                          | VUndefined \<Rightarrow> Inl TypeError
                          | VNull \<Rightarrow> Inl TypeError
                          | _ \<Rightarrow> Inr (VBool False))) ''too short'' of
      Inr d \<Rightarrow> validateType (TDesc d) VNull False init_state
    | Inl e \<Rightarrow> (Inr VUndefined, init_state))
     = (Inl TypeError, \<lparr>bufs = [[]], console = []\<rparr>)
   \<and> validateType (TCtor CString) (VNum (NInt 3)) False \<lparr>bufs = [[]], console = []\<rparr>
     = (Inr (VBool False),
        \<lparr>bufs = [[''value '' @ dq @ ''3'' @ dq @ '' should be of type '' @ dq @ ''String'' @ dq]],
         console = []\<rparr>)"
  by code_simp


section \<open>The validator of \<open>shape\<close>\<close>

lemma shape_every_true:
  "fst (shape_every obj keys lo kvs vks s) = Inr True \<longleftrightarrow>
     (\<forall>k \<in> set vks. (k \<in> set keys \<and> accepts (field_type obj k) (get_prop kvs k))
                    \<or> (k \<notin> set keys \<and> lo = Some True))"
proof (induction vks arbitrary: s)
  case Nil
  then show ?case by simp
next
  case (Cons key rest)
  show ?case
  proof (cases "key \<in> set keys")
    case False
    then show ?thesis
      using Cons.IH [of s] by (cases "lo = Some True") auto
  next
    case True
    obtain res s' where run: "validateType (field_type obj key) (get_prop kvs key) True s = (res, s')"
      by (cases "validateType (field_type obj key) (get_prop kvs key) True s")
    then have acc: "accepts (field_type obj key) (get_prop kvs key) \<longleftrightarrow> res = Inr (VBool True)"
      using accepts_iff [of "field_type obj key" "get_prop kvs key" s] by simp
    show ?thesis
    proof (cases res)
      case (Inl e)
      with True run acc show ?thesis by simp
    next
      case (Inr valid)
      show ?thesis
      proof (cases "valid = VBool True")
        case t: True
        with True run acc Inr Cons.IH [of s'] show ?thesis by simp
      next
        case False
        with True run acc Inr show ?thesis by (simp add: Let_def)
      qed
    qed
  qed
qed

lemma join_strs_lists:
  "m \<in> set ms \<Longrightarrow> \<exists>pre post. dq @ join_strs (dq @ '', '' @ dq) ms @ dq = pre @ dq @ m @ dq @ post"
proof (induction "dq @ '', '' @ dq" ms rule: join_strs.induct)
  case 1
  then show ?case by simp
next
  case (2 a)
  then have "dq @ join_strs (dq @ '', '' @ dq) [a] @ dq = [] @ dq @ m @ dq @ []" by simp
  then show ?case by blast
next
  case (3 a b bs)
  show ?case
  proof (cases "m = a")
    case True
    then have "dq @ join_strs (dq @ '', '' @ dq) (a # b # bs) @ dq
               = [] @ dq @ m @ dq @ ('', '' @ dq @ join_strs (dq @ '', '' @ dq) (b # bs) @ dq)"
      by simp
    then show ?thesis by blast
  next
    case False
    with "3.prems" have "m \<in> set (b # bs)" by simp
    from "3.hyps" [OF this] obtain pre post where
      "dq @ join_strs (dq @ '', '' @ dq) (b # bs) @ dq = pre @ dq @ m @ dq @ post" by blast
    then have "dq @ join_strs (dq @ '', '' @ dq) (a # b # bs) @ dq
               = (dq @ a @ dq @ '', '' @ pre) @ dq @ m @ dq @ post"
      by simp
    then show ?thesis by blast
  qed
qed

text \<open>
  C6: the validator of \<open>shape(obj)\<close>, loose or not, returns \<open>false\<close> on any value that is
  not a plain object, an object with an own property \<open>constructor\<close> included. On a plain
  object, let \<open>missing\<close> be the fields of \<open>obj\<close> whose descriptor has \<open>required === true\<close>
  and which are not among the keys of the value. If there are any, the validator returns
  \<open>false\<close> and emits one diagnostic, in which every missing name stands between double
  quotes. If there are none, it returns \<open>true\<close> if and only if every key of the value is
  either declared in \<open>obj\<close> with the value under it accepted, silently, by the declared
  type, or not declared while the descriptor is loose.
\<close>

theorem c6_shape_validator:
  assumes "d = shape obj \<or> d = loose (shape obj)"
  shows "\<exists>f. d_validator d = Some f
     \<and> (\<not> isPlainObject v \<longrightarrow>
          call_validator (d_name d, d_isLoose d) f [v] s = (Inr (VBool False), s))
     \<and> (\<forall>i kvs missing. v = VObj i kvs \<and> isPlainObject v
          \<and> missing = filter (\<lambda>req. req \<notin> set (map fst kvs))
                         (filter (\<lambda>key. field_required (field_type obj key)) (map fst obj))
          \<longrightarrow>
          (missing \<noteq> [] \<longrightarrow>
             (\<exists>msg. call_validator (d_name d, d_isLoose d) f [v] s = (Inr (VBool False), warn msg s)
                \<and> msg = (if length missing = 1
                          then ''shape - required property '' @ dq @ hd missing @ dq
                               @ '' is not defined.''
                          else ''shape - required properties '' @ dq
                               @ join_strs (dq @ '', '' @ dq) missing @ dq @ '' are not defined.'')
                \<and> (\<forall>m \<in> set missing. \<exists>pre post. msg = pre @ dq @ m @ dq @ post)))
          \<and> (missing = [] \<longrightarrow>
             (fst (call_validator (d_name d, d_isLoose d) f [v] s) = Inr (VBool True) \<longleftrightarrow>
                (\<forall>k \<in> set (map fst kvs).
                    (k \<in> set (map fst obj) \<and> accepts (field_type obj k) (get_prop kvs k))
                    \<or> (k \<notin> set (map fst obj) \<and> d = loose (shape obj))))))"
proof -
  let ?keys = "map fst obj"
  let ?req = "filter (\<lambda>key. field_required (field_type obj key)) ?keys"
  let ?f = "VShape obj ?keys ?req"
  let ?msg = "\<lambda>missing. if length missing = 1
                          then ''shape - required property '' @ dq @ hd missing @ dq
                               @ '' is not defined.''
                          else ''shape - required properties '' @ dq
                               @ join_strs (dq @ '', '' @ dq) missing @ dq @ '' are not defined.''"
  have f: "d_validator d = Some ?f"
    using assms by (auto simp: shape_def loose_def toType_def obj_lit_def Let_def)
  have lo: "d_isLoose d = Some True \<longleftrightarrow> d = loose (shape obj)"
    using assms by (auto simp: shape_def loose_def toType_def obj_lit_def Let_def)
  have c: "(?req \<noteq> [] \<and> list_ex (\<lambda>req. req \<notin> set (map fst kvs)) ?req)
           = (filter (\<lambda>req. req \<notin> set (map fst kvs)) ?req \<noteq> [])" for kvs
    by (auto simp: list_ex_iff filter_empty_conv simp del: set_map)
  have u: "call_validator (d_name d, d_isLoose d) ?f [VObj i kvs] s =
        (if filter (\<lambda>req. req \<notin> set (map fst kvs)) ?req \<noteq> [] then
               (Inr (VBool False),
                    warn (?msg (filter (\<lambda>req. req \<notin> set (map fst kvs)) ?req)) s)
             else (case shape_every obj ?keys (d_isLoose d) kvs (map fst kvs) s of
                     (Inl e, s') \<Rightarrow> (Inl e, s')
                   | (Inr valid, s') \<Rightarrow> (Inr (VBool valid), s')))"
    if po: "isPlainObject (VObj i kvs)" for i kvs
  proof -
    from po have npo: "(\<not> isPlainObject (VObj i kvs)) = False" by simp
    show ?thesis
      unfolding call_validator.simps arg0_def list.case npo if_False
                jsval.case Let_def c snd_conv
      by (rule refl)
  qed
  have 1: "call_validator (d_name d, d_isLoose d) ?f [v] s = (Inr (VBool False), s)"
    if "\<not> isPlainObject v"
    using that by (simp add: arg0_def del: isPlainObject.simps)
  have listed: "\<forall>m \<in> set missing. \<exists>pre post. ?msg missing = pre @ dq @ m @ dq @ post"
    for missing
  proof
    fix m assume m: "m \<in> set missing"
    show "\<exists>pre post. ?msg missing = pre @ dq @ m @ dq @ post"
    proof (cases "length missing = 1")
      case True
      with m have "missing = [m]" by (cases missing) auto
      then have "?msg missing = ''shape - required property '' @ dq @ m @ dq @ '' is not defined.''"
        by simp
      then show ?thesis by blast
    next
      case False
      from join_strs_lists [OF m] obtain pre post where
        "dq @ join_strs (dq @ '', '' @ dq) missing @ dq = pre @ dq @ m @ dq @ post" by blast
      with False have "?msg missing =
          (''shape - required properties '' @ pre) @ dq @ m @ dq @ (post @ '' are not defined.'')"
        by simp
      then show ?thesis by blast
    qed
  qed
  have 3: "fst (call_validator (d_name d, d_isLoose d) ?f [VObj i kvs] s) = Inr (VBool True) \<longleftrightarrow>
                (\<forall>k \<in> set (map fst kvs).
                    (k \<in> set ?keys \<and> accepts (field_type obj k) (get_prop kvs k))
                    \<or> (k \<notin> set ?keys \<and> d = loose (shape obj)))"
    if m: "filter (\<lambda>req. req \<notin> set (map fst kvs)) ?req = []"
      and po: "isPlainObject (VObj i kvs)" for i kvs
  proof -
    obtain res s' where run: "shape_every obj ?keys (d_isLoose d) kvs (map fst kvs) s = (res, s')"
      by (cases "shape_every obj ?keys (d_isLoose d) kvs (map fst kvs) s")
    have "fst (call_validator (d_name d, d_isLoose d) ?f [VObj i kvs] s) = Inr (VBool True)
          \<longleftrightarrow> res = Inr True"
      unfolding u [OF po] m run by (cases res) simp_all
    also have "\<dots> \<longleftrightarrow> (\<forall>k \<in> set (map fst kvs).
                    (k \<in> set ?keys \<and> accepts (field_type obj k) (get_prop kvs k))
                    \<or> (k \<notin> set ?keys \<and> d_isLoose d = Some True))"
      using shape_every_true [of obj ?keys "d_isLoose d" kvs "map fst kvs" s] run by simp
    finally show ?thesis
      unfolding lo .
  qed
  show ?thesis
  proof (rule exI [of _ ?f], intro conjI allI impI)
    show "d_validator d = Some ?f" by (rule f)
  next
    assume "\<not> isPlainObject v"
    then show "call_validator (d_name d, d_isLoose d) ?f [v] s = (Inr (VBool False), s)"
      by (rule 1)
  next
    fix i kvs missing
    assume a: "v = VObj i kvs \<and> isPlainObject v
          \<and> missing = filter (\<lambda>req. req \<notin> set (map fst kvs)) ?req"
       and b: "missing \<noteq> []"
    from a have po: "isPlainObject (VObj i kvs)" by (elim conjE) simp
    from a b u [OF po] have "call_validator (d_name d, d_isLoose d) ?f [v] s
        = (Inr (VBool False), warn (?msg missing) s)"
      by (simp del: set_map call_validator.simps isPlainObject.simps)
    with listed [of missing]
    show "\<exists>msg. call_validator (d_name d, d_isLoose d) ?f [v] s = (Inr (VBool False), warn msg s)
                \<and> msg = ?msg missing
                \<and> (\<forall>m \<in> set missing. \<exists>pre post. msg = pre @ dq @ m @ dq @ post)"
      by blast
  next
    fix i kvs missing
    assume a: "v = VObj i kvs \<and> isPlainObject v
          \<and> missing = filter (\<lambda>req. req \<notin> set (map fst kvs)) ?req"
       and b: "missing = []"
    from a have po: "isPlainObject (VObj i kvs)" by (elim conjE) simp
    from a b show "fst (call_validator (d_name d, d_isLoose d) ?f [v] s) = Inr (VBool True) \<longleftrightarrow>
                (\<forall>k \<in> set (map fst kvs).
                    (k \<in> set ?keys \<and> accepts (field_type obj k) (get_prop kvs k))
                    \<or> (k \<notin> set ?keys \<and> d = loose (shape obj)))"
      using 3 [of kvs i, OF _ po] by (simp del: set_map call_validator.simps isPlainObject.simps)
  qed
qed


theorem c6_shape_validator_witness:
  "\<exists>f. d_validator (shape [(''id'', TDesc (isRequired integer_base)),
                           (''name'', TDesc (isRequired string_base)),
                           (''constructor'', TCtor CString)])
        = Some f
     \<and> call_validator (Some ''shape'', Some False) f [VStr ''John''] init_state
         = (Inr (VBool False), init_state)
     \<and> call_validator (Some ''shape'', Some False) f
           [VObj 3 [(''id'', VNum (NInt 10)), (''name'', VStr ''John''),
                    (''constructor'', VStr ''Mercedes'')]] init_state
         = (Inr (VBool False), init_state)
     \<and> call_validator (Some ''shape'', Some False) f [VObj 1 []] init_state
         = (Inr (VBool False),
            warn (''shape - required properties '' @ dq @ ''id'' @ dq @ '', '' @ dq @ ''name'' @ dq
                  @ '' are not defined.'')
              init_state)
     \<and> fst (call_validator (Some ''shape'', Some False) f
              [VObj 2 [(''id'', VNum (NInt 10)), (''name'', VStr ''John'')]]
              init_state) = Inr (VBool True)"
proof -
  let ?obj = "[(''id'', TDesc (isRequired integer_base)), (''name'', TDesc (isRequired string_base)),
               (''constructor'', TCtor CString)]"
  let ?d = "shape ?obj"
  let ?v0 = "VObj 3 [(''id'', VNum (NInt 10)), (''name'', VStr ''John''),
                     (''constructor'', VStr ''Mercedes'')]"
  let ?v1 = "VObj 1 []"
  let ?v2 = "VObj 2 [(''id'', VNum (NInt 10)), (''name'', VStr ''John'')]"
  have ctx: "d_name ?d = Some ''shape''" "d_isLoose ?d = Some False"
    by (simp_all add: shape_def toType_def obj_lit_def Let_def)
  have h: "?d = shape ?obj \<or> ?d = loose (shape ?obj)" by simp
  have p0: "\<not> isPlainObject ?v0" "\<not> isPlainObject (VStr ''John'')"
    by simp_all
  have m1: "?v1 = VObj 1 [] \<and> isPlainObject ?v1
              \<and> [''id'', ''name''] = filter (\<lambda>req. req \<notin> set (map fst ([] :: (string \<times> jsval) list)))
              (filter (\<lambda>key. field_required (field_type ?obj key)) (map fst ?obj))"
    by code_simp
  have m2: "?v2 = VObj 2 [(''id'', VNum (NInt 10)), (''name'', VStr ''John'')] \<and> isPlainObject ?v2
              \<and> [] = filter (\<lambda>req. req \<notin> set (map fst [(''id'', VNum (NInt 10)), (''name'', VStr ''John'')]))
              (filter (\<lambda>key. field_required (field_type ?obj key)) (map fst ?obj))"
    by code_simp
  have acc: "accepts (TDesc (isRequired integer_base)) (VNum (NInt 10))"
    "accepts (TDesc (isRequired string_base)) (VStr ''John'')"
    by code_simp+
  have a2: "\<forall>k \<in> set (map fst [(''id'', VNum (NInt 10)), (''name'', VStr ''John'')]).
              (k \<in> set (map fst ?obj)
                 \<and> accepts (field_type ?obj k)
                     (get_prop [(''id'', VNum (NInt 10)), (''name'', VStr ''John'')] k))
              \<or> (k \<notin> set (map fst ?obj) \<and> ?d = loose (shape ?obj))"
    using acc by (simp add: field_type_def get_prop_def)
  from c6_shape_validator [OF h, of "VStr ''John''" init_state] p0(2) obtain f0 where
    f0: "d_validator ?d = Some f0"
    and r0: "call_validator (d_name ?d, d_isLoose ?d) f0 [VStr ''John''] init_state
              = (Inr (VBool False), init_state)"
    by blast
  from c6_shape_validator [OF h, of ?v0 init_state] f0 p0(1) have
    rc: "call_validator (d_name ?d, d_isLoose ?d) f0 [?v0] init_state
          = (Inr (VBool False), init_state)"
    by (auto simp del: call_validator.simps set_map isPlainObject.simps)
  from c6_shape_validator [OF h, of ?v1 init_state] f0 obtain
    g: "\<forall>i kvs missing. ?v1 = VObj i kvs \<and> isPlainObject ?v1
          \<and> missing = filter (\<lambda>req. req \<notin> set (map fst kvs))
                         (filter (\<lambda>key. field_required (field_type ?obj key)) (map fst ?obj))
          \<longrightarrow>
          (missing \<noteq> [] \<longrightarrow>
             (\<exists>msg. call_validator (d_name ?d, d_isLoose ?d) f0 [?v1] init_state
                      = (Inr (VBool False), warn msg init_state)
                \<and> msg = (if length missing = 1
                          then ''shape - required property '' @ dq @ hd missing @ dq
                               @ '' is not defined.''
                          else ''shape - required properties '' @ dq
                               @ join_strs (dq @ '', '' @ dq) missing @ dq @ '' are not defined.'')
                \<and> (\<forall>m \<in> set missing. \<exists>pre post. msg = pre @ dq @ m @ dq @ post)))
          \<and> (missing = [] \<longrightarrow>
             (fst (call_validator (d_name ?d, d_isLoose ?d) f0 [?v1] init_state) = Inr (VBool True) \<longleftrightarrow>
                (\<forall>k \<in> set (map fst kvs).
                    (k \<in> set (map fst ?obj) \<and> accepts (field_type ?obj k) (get_prop kvs k))
                    \<or> (k \<notin> set (map fst ?obj) \<and> ?d = loose (shape ?obj)))))"
    by (auto simp del: call_validator.simps set_map isPlainObject.simps)
  from g [rule_format, OF m1, THEN conjunct1, rule_format] have
    r1: "call_validator (d_name ?d, d_isLoose ?d) f0 [?v1] init_state
          = (Inr (VBool False),
             warn (''shape - required properties '' @ dq @ ''id'' @ dq @ '', '' @ dq @ ''name'' @ dq
                   @ '' are not defined.'') init_state)"
    by (auto simp del: call_validator.simps)
  from c6_shape_validator [OF h, of ?v2 init_state] f0 obtain
    g2: "\<forall>i kvs missing. ?v2 = VObj i kvs \<and> isPlainObject ?v2
          \<and> missing = filter (\<lambda>req. req \<notin> set (map fst kvs))
                         (filter (\<lambda>key. field_required (field_type ?obj key)) (map fst ?obj))
          \<longrightarrow>
          (missing = [] \<longrightarrow>
             (fst (call_validator (d_name ?d, d_isLoose ?d) f0 [?v2] init_state) = Inr (VBool True) \<longleftrightarrow>
                (\<forall>k \<in> set (map fst kvs).
                    (k \<in> set (map fst ?obj) \<and> accepts (field_type ?obj k) (get_prop kvs k))
                    \<or> (k \<notin> set (map fst ?obj) \<and> ?d = loose (shape ?obj)))))"
    by (auto simp del: call_validator.simps set_map isPlainObject.simps)
  from g2 [rule_format, OF m2 refl] a2 have
    r2: "fst (call_validator (d_name ?d, d_isLoose ?d) f0 [?v2] init_state) = Inr (VBool True)"
    by blast
  from f0 r0 rc r1 r2 show ?thesis
    unfolding ctx by blast
qed
section \<open>Enumerations: \<open>oneOf\<close>\<close>

lemma isl_error: "isl r \<longleftrightarrow> r = Inl TypeError" for r :: "error + 'a"
  by (cases r) (auto intro: error.exhaust)

lemma native_check_ctor:
  "d_type d = Some (TCtor c) \<Longrightarrow>
   native_check d v = (if native_raises c v then Inl TypeError
                       else Inr (Checked (matches_ctor c v) (ctor_name c)))"
proof -
  assume d: "d_type d = Some (TCtor c)"
  show ?thesis
  proof (cases "getNativeType v")
    case (Inl e)
    then have "getNativeType v = Inl TypeError" by (cases e) simp
    with d show ?thesis
      by (auto simp: native_check_def matches_ctor_def native_raises_def getType_def Let_def
                     show_name_def)
  next
    case (Inr n)
    with d show ?thesis
      by (auto simp: native_check_def matches_ctor_def native_raises_def getType_def Let_def
                     show_name_def)
  qed
qed

lemma validateType_ctor:
  "validateType (TCtor c) v True s =
     (if v = VUndefined then (Inr (VBool True), s)
      else if native_raises c v then (Inl TypeError, s)
      else if matches_ctor c v then (Inr (VBool True), s)
      else (case to_str v of
              None \<Rightarrow> (Inl TypeError, s)
            | Some shown \<Rightarrow>
                (Inr (VStr (''value '' @ dq @ shown @ dq @ '' should be of type '' @ dq
                            @ ctor_name c @ dq)), s)))"
proof -
  let ?d = "plain_or_wrapped (TCtor c)"
  have d: "d_type ?d = Some (TCtor c)" "d_required ?d = None" "d_validator ?d = None"
    "d_name ?d = None" "has_type ?d" "\<not> type_undefined ?d"
    by (simp_all add: plain_or_wrapped_def has_type_def type_undefined_def)
  show ?thesis
    unfolding validateType_stages
    by (simp add: type_stage_def d native_check_ctor type_mismatch_def namePrefix_def Let_def
             split: option.splits)
qed

lemma getNativeType_inherited:
  "own_constructor v = None \<Longrightarrow> getNativeType v = Inr (map_option ctor_name (constructor_of v))"
  by (cases v) (simp_all add: getNativeType_def)

lemma not_native_raises: "own_constructor v = None \<Longrightarrow> \<not> native_raises c v"
  by (simp add: native_raises_def getNativeType_inherited)

lemma matches_ctor_not_nullish:
  "matches_ctor c v \<Longrightarrow> v \<noteq> VNull \<and> v \<noteq> VUndefined
      \<and> (\<forall>i. v \<noteq> VInst i ''Array'' \<and> v \<noteq> VInst i ''Object'')"
  by (auto simp: matches_ctor_def getNativeType_def own_constructor_def Let_def split: if_splits)

lemma isPlainObject_inherited: "own_constructor (VObj i kvs) = None \<Longrightarrow> isPlainObject (VObj i kvs)"
  by (simp add: own_constructor_def map_of_eq_None_iff)

lemma matches_own_ctor:
  "constructor_of v = Some c \<Longrightarrow> \<not> isSymbol v \<Longrightarrow> own_constructor v = None
   \<Longrightarrow> (\<forall>i. v \<noteq> VInst i ''Array'' \<and> v \<noteq> VInst i ''Object'') \<Longrightarrow> matches_ctor c v"
  by (cases v)
     (auto simp: matches_ctor_def getNativeType_inherited Let_def own_constructor_def
                 map_of_eq_None_iff)

lemma type_some_ctors_undefined:
  "type_some (map TCtor cs) VUndefined s = (Inr (cs \<noteq> []), s)"
  by (cases cs) (simp_all add: validateType_ctor)

lemma type_some_ctors:
  "to_str v \<noteq> None \<Longrightarrow> v \<noteq> VUndefined \<Longrightarrow> own_constructor v = None \<Longrightarrow>
   type_some (map TCtor cs) v s = (Inr (list_ex (\<lambda>c. matches_ctor c v) cs), s)"
  by (induction cs) (auto simp: validateType_ctor not_native_raises)

lemma type_some_ctors_true:
  "type_some (map TCtor cs) v s = (Inr True, s') \<Longrightarrow>
   v = VUndefined \<or> list_ex (\<lambda>c. matches_ctor c v) cs"
  by (induction cs) (auto simp: validateType_ctor split: if_splits option.splits)

lemma join_with_printable:
  "join_with sep xs = Some j \<Longrightarrow> x \<in> set xs \<Longrightarrow> to_str x \<noteq> None"
proof (induction xs arbitrary: j)
  case Nil
  then show ?case by simp
next
  case (Cons y ys)
  then show ?case
    by (cases "y = VUndefined \<or> y = VNull"; cases "ys = []")
       (auto split: option.splits if_splits)
qed

lemma remdups_snoc: "remdups (xs @ [c]) = remdups (filter (\<lambda>x. x \<noteq> c) xs) @ [c]"
  by (induction xs) auto

lemma first_occurrences_Cons:
  "first_occurrences (c # cs) = c # first_occurrences (filter (\<lambda>x. x \<noteq> c) cs)"
  by (simp add: first_occurrences_def remdups_snoc rev_filter)

lemma first_occurrences_filter:
  "first_occurrences (filter P xs) = filter P (first_occurrences xs)"
  by (simp add: first_occurrences_def rev_filter remdups_filter)

lemma set_first_occurrences [simp]: "set (first_occurrences xs) = set xs"
  by (simp add: first_occurrences_def)

lemma foldl_first_occurrences:
  "foldl (\<lambda>ret c. if c \<in> set ret then ret else ret @ [c]) acc cs
     = acc @ filter (\<lambda>c. c \<notin> set acc) (first_occurrences cs)"
proof (induction cs arbitrary: acc)
  case Nil
  then show ?case by (simp add: first_occurrences_def)
next
  case (Cons c cs)
  show ?case
  proof (cases "c \<in> set acc")
    case True
    then have "filter (\<lambda>x. x \<notin> set acc) (filter (\<lambda>x. x \<noteq> c) (first_occurrences cs))
               = filter (\<lambda>x. x \<notin> set acc) (first_occurrences cs)"
      by (auto intro: filter_cong)
    with True show ?thesis
      by (simp add: Cons.IH first_occurrences_Cons first_occurrences_filter)
  next
    case False
    have "filter (\<lambda>x. x \<notin> set (acc @ [c])) (first_occurrences cs)
          = filter (\<lambda>x. x \<notin> set acc) (filter (\<lambda>x. x \<noteq> c) (first_occurrences cs))"
      by (auto intro: filter_cong)
    with False show ?thesis
      by (simp add: Cons.IH first_occurrences_Cons first_occurrences_filter)
  qed
qed

lemma allowedTypes_fold:
  "foldl (\<lambda>ret v. case constructor_of v of
                                None \<Rightarrow> ret
                              | Some c \<Rightarrow> if c \<in> set ret then ret else ret @ [c]) acc arr
   = foldl (\<lambda>ret c. if c \<in> set ret then ret else ret @ [c]) acc (List.map_filter constructor_of arr)"
  by (induction arr arbitrary: acc) (auto simp: List.map_filter_simps split: option.splits)

lemma allowedTypes_eq: "allowedTypes arr = member_constructors arr"
  by (simp add: allowedTypes_def member_constructors_def allowedTypes_fold foldl_first_occurrences)

lemma set_member_constructors:
  "set (member_constructors arr) = {c. \<exists>x \<in> set arr. constructor_of x = Some c}"
  by (force simp: member_constructors_def map_filter_def)

lemma arr_includes_mem: "arr_includes arr v \<Longrightarrow> v \<in> set arr"
  by (auto simp: arr_includes_def list_ex_iff strict_eq_def)

lemma call_oneOf:
  "fst (call_validator ctx (VOneOf arr msg) [v] s) = Inr (VBool True) \<longleftrightarrow> arr_includes arr v"
  by (simp add: arg0_def Let_def)

lemma validate_oneOf_desc:
  assumes d: "d = Desc (Some ''oneOf'') (Some ty) None None (Some (VOneOf arr msg)) False None"
  shows "fst (validateType (TDesc d) v silent s) = Inr (VBool True) \<longleftrightarrow>
     (case fst (type_stage d v s) of
        Inl e \<Rightarrow> False
      | Inr (Done r) \<Rightarrow> r = VBool True
      | Inr (Checked b n) \<Rightarrow> b \<and> arr_includes arr v)"
proof -
  obtain res s1 where ts: "type_stage d v s = (res, s1)"
    by (cases "type_stage d v s")
  show ?thesis
  proof (cases res)
    case (Inl e)
    with ts show ?thesis by (simp add: validateType_stages)
  next
    case (Inr c)
    show ?thesis
    proof (cases c)
      case (Done r)
      with ts Inr show ?thesis by (simp add: validateType_stages)
    next
      case (Checked b n)
      show ?thesis
      proof (cases b)
        case False
        with ts Inr Checked show ?thesis
          by (simp add: validateType_stages type_mismatch_def Let_def split: option.splits)
      next
        case True
        with ts Inr Checked d show ?thesis
          by (simp add: validateType_stages after_validator_def Let_def arg0_def)
      qed
    qed
  qed
qed

text \<open>
  C7, as the specification states it: validating against \<open>oneOf(arr)\<close> succeeds exactly
  for the values strictly equal to a literal. Both directions fail. \<open>undefined\<close> is not
  among \<open>0\<close>, \<open>1\<close>, \<open>'string'\<close>, yet the descriptor is not required and has a type, so
  validating \<open>undefined\<close> returns \<open>true\<close>. \<open>null\<close> is a literal of \<open>oneOf([null, 1])\<close>, yet
  the type of that descriptor is \<open>[Number]\<close> and \<open>null\<close> fails the native check.
\<close>

theorem c7_undefined_accepted_null_rejected:
  "(case oneOf (VArr 0 [VNum (NInt 0), VNum (NInt 1), VStr ''string'']) of
      Inr d \<Rightarrow> fst (validateType (TDesc d) VUndefined False init_state) = Inr (VBool True)
    | Inl e \<Rightarrow> False)
   \<and> \<not> arr_includes [VNum (NInt 0), VNum (NInt 1), VStr ''string''] VUndefined
   \<and> (case oneOf (VArr 0 [VNull, VNum (NInt 1)]) of
      Inr d \<Rightarrow> fst (validateType (TDesc d) VNull True init_state) \<noteq> Inr (VBool True)
    | Inl e \<Rightarrow> False)
   \<and> arr_includes [VNull, VNum (NInt 1)] VNull"
  by code_simp


lemma arr_includes_iff: "arr_includes arr v \<longleftrightarrow> (v \<in> set arr \<and> v \<noteq> VNum NNaN)"
  by (auto simp: arr_includes_def list_ex_iff strict_eq_def)

lemma oneOf_characterised:
  assumes "oneOf (VArr i arr) = Inr d"
    and "\<forall>x \<in> set arr. own_constructor x = None"
  shows "d_type d = Some (if member_constructors arr = [] then TNull
                          else TArray (map TCtor (member_constructors arr)))
   \<and> (\<exists>f. d_validator d = Some f
        \<and> (fst (call_validator (d_name d, d_isLoose d) f [v] s) = Inr (VBool True)
             \<longleftrightarrow> arr_includes arr v))
   \<and> (fst (validateType (TDesc d) v silent s) = Inr (VBool True) \<longleftrightarrow>
        (member_constructors arr \<noteq> [] \<and> v = VUndefined)
        \<or> (arr_includes arr v \<and> (v = VNull \<longrightarrow> member_constructors arr = [])
            \<and> (\<forall>j. v \<noteq> VInst j ''Array'' \<and> v \<noteq> VInst j ''Object'')))"
proof -
  let ?cs = "member_constructors arr"
  let ?ty = "if ?cs = [] then TNull else TArray (map TCtor ?cs)"
  from assms(1) obtain joined where j: "join_with (dq @ '', '' @ dq) arr = Some joined"
    by (auto simp: oneOf_def split: option.splits)
  define msg where "msg = ''oneOf - value should be one of '' @ dq @ joined @ dq"
  from assms(1) j have d: "d = Desc (Some ''oneOf'') (Some ?ty) None None (Some (VOneOf arr msg)) False None"
    by (auto simp: oneOf_def Let_def toType_def obj_lit_def allowedTypes_eq msg_def)
  have printable: "to_str x \<noteq> None" if "x \<in> set arr" for x
    using join_with_printable [OF j that] .
  have 1: "d_type d = Some ?ty" by (simp add: d)
  have 2: "\<exists>f. d_validator d = Some f
        \<and> (fst (call_validator (d_name d, d_isLoose d) f [v] s) = Inr (VBool True)
             \<longleftrightarrow> arr_includes arr v)"
    using call_oneOf [of "(d_name d, d_isLoose d)" arr msg v s] by (simp add: d)
  have 3: "fst (validateType (TDesc d) v silent s) = Inr (VBool True) \<longleftrightarrow>
        (?cs \<noteq> [] \<and> v = VUndefined)
        \<or> (arr_includes arr v \<and> (v = VNull \<longrightarrow> ?cs = [])
            \<and> (\<forall>j. v \<noteq> VInst j ''Array'' \<and> v \<noteq> VInst j ''Object''))"
  proof (cases "?cs = []")
    case True
    then have ts: "type_stage d v s = (Inr (Checked True ''undefined''), s)"
      by (simp add: type_stage_def d has_type_def)
    have "\<forall>j. v \<noteq> VInst j ''Array'' \<and> v \<noteq> VInst j ''Object''" if "arr_includes arr v"
    proof -
      from that have "v \<in> set arr" by (rule arr_includes_mem)
      with True set_member_constructors [of arr] have "constructor_of v = None"
        by (cases "constructor_of v") auto
      then show ?thesis by (cases v) simp_all
    qed
    with True ts show ?thesis
      unfolding validate_oneOf_desc [OF d] by auto
  next
    case False
    then have h: "has_type d" "\<not> type_undefined d" "d_required d \<noteq> Some True"
      "d_type d = Some (TArray (map TCtor ?cs))"
      by (simp_all add: d has_type_def type_undefined_def)
    show ?thesis
    proof (cases "v = VUndefined")
      case True
      with h have "type_stage d v s = (Inr (Done (VBool True)), s)"
        by (simp add: type_stage_def)
      with True False show ?thesis
        unfolding validate_oneOf_desc [OF d] by simp
    next
      case nu: False
      obtain res s1 where run: "type_some (map TCtor ?cs) v s = (res, s1)"
        by (cases "type_some (map TCtor ?cs) v s")
      have ts: "fst (type_stage d v s) = map_sum id (\<lambda>b. Checked b
          (join_strs '' or '' (map (\<lambda>ty. case getType ty of None \<Rightarrow> [] | Some n \<Rightarrow> n)
             (map TCtor ?cs)))) res"
        using h nu run by (cases res) (simp_all add: type_stage_def)
      have lhs: "fst (validateType (TDesc d) v silent s) = Inr (VBool True)
                 \<longleftrightarrow> res = Inr True \<and> arr_includes arr v"
        unfolding validate_oneOf_desc [OF d] ts by (cases res) auto
      show ?thesis
      proof
        assume "fst (validateType (TDesc d) v silent s) = Inr (VBool True)"
        with lhs have r: "res = Inr True" and inc: "arr_includes arr v" by simp_all
        from r run nu have "list_ex (\<lambda>c. matches_ctor c v) ?cs"
          using type_some_ctors_true [of ?cs v s s1] by simp
        then obtain c where "matches_ctor c v" by (auto simp: list_ex_iff)
        from matches_ctor_not_nullish [OF this] inc False
        show "(?cs \<noteq> [] \<and> v = VUndefined)
            \<or> (arr_includes arr v \<and> (v = VNull \<longrightarrow> ?cs = [])
                \<and> (\<forall>j. v \<noteq> VInst j ''Array'' \<and> v \<noteq> VInst j ''Object''))"
          by simp
      next
        assume "(?cs \<noteq> [] \<and> v = VUndefined)
            \<or> (arr_includes arr v \<and> (v = VNull \<longrightarrow> ?cs = [])
                \<and> (\<forall>j. v \<noteq> VInst j ''Array'' \<and> v \<noteq> VInst j ''Object''))"
        with nu False have inc: "arr_includes arr v" and nn: "v \<noteq> VNull"
          and od: "\<forall>j. v \<noteq> VInst j ''Array'' \<and> v \<noteq> VInst j ''Object''"
          by auto
        from inc have mem: "v \<in> set arr" by (rule arr_includes_mem)
        then have p: "to_str v \<noteq> None" by (rule printable)
        from mem assms(2) have oc: "own_constructor v = None" by simp
        from p have ns: "\<not> isSymbol v" by (cases v) auto
        from nu nn obtain c where c: "constructor_of v = Some c" by (cases v) auto
        with mem have "c \<in> set ?cs" by (auto simp: set_member_constructors)
        moreover have "matches_ctor c v" using matches_own_ctor [OF c ns oc od] .
        ultimately have "list_ex (\<lambda>c. matches_ctor c v) ?cs" by (auto simp: list_ex_iff)
        with type_some_ctors [OF p nu oc, of ?cs s] run have "res = Inr True" by simp
        with lhs inc show "fst (validateType (TDesc d) v silent s) = Inr (VBool True)" by simp
      qed
    qed
  qed
  from 1 2 3 show ?thesis by blast
qed

text \<open>
  C7, amended: let no member of \<open>arr\<close> have an own property named \<open>constructor\<close> (for
  such a member \<open>oneOf\<close> reads that property, whatever it holds, in place of a
  constructor). When \<open>oneOf(arr)\<close> returns a descriptor, its \<open>type\<close> is the list of the
  constructors of the members that are neither \<open>null\<close> nor \<open>undefined\<close>, each at its first
  occurrence, or \<open>null\<close> when there is none; its validator returns \<open>true\<close> exactly on the
  values strictly equal to a member (the members themselves, \<open>NaN\<close> excepted); and validating a value against the descriptor
  returns \<open>true\<close> exactly when the value is \<open>undefined\<close> and the type is not \<open>null\<close>, or
  the value is strictly equal to a member and passes the native check, which every
  member does except \<open>null\<close> beside typed members, and instances of a constructor named
  \<open>Array\<close> or \<open>Object\<close> that are not arrays or plain objects.
\<close>

theorem c7_oneOf:
  assumes "oneOf (VArr i arr) = Inr d"
    and "\<forall>x \<in> set arr. own_constructor x = None"
  shows "d_type d = Some (if member_constructors arr = [] then TNull
                          else TArray (map TCtor (member_constructors arr)))
   \<and> (\<exists>f. d_validator d = Some f
        \<and> (fst (call_validator (d_name d, d_isLoose d) f [v] s) = Inr (VBool True)
             \<longleftrightarrow> (v \<in> set arr \<and> v \<noteq> VNum NNaN)))
   \<and> (fst (validateType (TDesc d) v silent s) = Inr (VBool True) \<longleftrightarrow>
        (member_constructors arr \<noteq> [] \<and> v = VUndefined)
        \<or> ((v \<in> set arr \<and> v \<noteq> VNum NNaN) \<and> (v = VNull \<longrightarrow> member_constructors arr = [])
            \<and> (\<forall>j. v \<noteq> VInst j ''Array'' \<and> v \<noteq> VInst j ''Object'')))"
  using oneOf_characterised [OF assms, of v s silent] unfolding arr_includes_iff .

theorem c7_oneOf_witness:
  "\<exists>d. oneOf (VArr 0 [VNull, VNum (NInt 0), VStr ''a'', VNum (NInt 1)]) = Inr d
     \<and> d_type d = Some (TArray [TCtor CNumber, TCtor CString])
     \<and> fst (validateType (TDesc d) (VNum (NInt 1)) False init_state) = Inr (VBool True)
     \<and> fst (validateType (TDesc d) (VNum (NInt 5)) False init_state) \<noteq> Inr (VBool True)
     \<and> fst (validateType (TDesc d) VNull False init_state) \<noteq> Inr (VBool True)"
proof -
  let ?arr = "[VNull, VNum (NInt 0), VStr ''a'', VNum (NInt 1)]"
  have "case oneOf (VArr 0 ?arr) of Inr d \<Rightarrow> True | Inl e \<Rightarrow> False"
    by code_simp
  then obtain d where d: "oneOf (VArr 0 ?arr) = Inr d"
    by (cases "oneOf (VArr 0 ?arr)") auto
  have m: "member_constructors ?arr = [CNumber, CString]"
    by code_simp
  have i: "VNum (NInt 1) \<in> set ?arr \<and> VNum (NInt 1) \<noteq> VNum NNaN"
    "\<not> (VNum (NInt 5) \<in> set ?arr \<and> VNum (NInt 5) \<noteq> VNum NNaN)"
    "VNull \<in> set ?arr \<and> VNull \<noteq> VNum NNaN"
    by simp_all
  have oc: "\<forall>x \<in> set ?arr. own_constructor x = None"
    by (simp add: own_constructor_def)
  note t = c7_oneOf [OF d oc]
  from t [of "VNum (NInt 1)" init_state False] m i
  have 1: "d_type d = Some (TArray [TCtor CNumber, TCtor CString])"
    and 2: "fst (validateType (TDesc d) (VNum (NInt 1)) False init_state) = Inr (VBool True)"
    by simp_all
  from t [of "VNum (NInt 5)" init_state False] m i
  have 3: "fst (validateType (TDesc d) (VNum (NInt 5)) False init_state) \<noteq> Inr (VBool True)"
    by simp
  from t [of VNull init_state False] m i
  have 4: "fst (validateType (TDesc d) VNull False init_state) \<noteq> Inr (VBool True)"
    by simp
  from d 1 2 3 4 show ?thesis by blast
qed


section \<open>Unions: \<open>oneOfType\<close>\<close>

lemma oneOfType_some_true_imp:
  "fst (oneOfType_some arr v s) = Inr True \<Longrightarrow> \<exists>u \<in> set arr. accepts (oneOf_strip u) v"
proof (induction arr arbitrary: s)
  case Nil
  then show ?case by simp
next
  case (Cons ty rest)
  show ?case
  proof (cases "nullish ty")
    case True
    with Cons.prems show ?thesis by simp
  next
    case False
    obtain res s' where run: "validateType (oneOf_strip ty) v True s = (res, s')"
      by (cases "validateType (oneOf_strip ty) v True s")
    then have acc: "accepts (oneOf_strip ty) v \<longleftrightarrow> res = Inr (VBool True)"
      using accepts_iff [of "oneOf_strip ty" v s] by simp
    show ?thesis
    proof (cases "res = Inr (VBool True)")
      case True
      with acc show ?thesis by simp
    next
      case nt: False
      with False run Cons.prems have "fst (oneOfType_some rest v s') = Inr True"
        by (cases res) (auto split: if_splits)
      from Cons.IH [OF this] show ?thesis by auto
    qed
  qed
qed

lemma oneOfType_some_true_if:
  "\<forall>u \<in> set arr. \<not> nullish u \<and> \<not> raises (oneOf_strip u) v \<Longrightarrow>
   \<exists>u \<in> set arr. accepts (oneOf_strip u) v \<Longrightarrow>
   fst (oneOfType_some arr v s) = Inr True"
proof (induction arr arbitrary: s)
  case Nil
  then show ?case by simp
next
  case (Cons ty rest)
  obtain res s' where run: "validateType (oneOf_strip ty) v True s = (res, s')"
    by (cases "validateType (oneOf_strip ty) v True s")
  then have acc: "accepts (oneOf_strip ty) v \<longleftrightarrow> res = Inr (VBool True)"
    using accepts_iff [of "oneOf_strip ty" v s] by simp
  from run have "raises (oneOf_strip ty) v \<longleftrightarrow> isl res"
    using raises_iff [of "oneOf_strip ty" v s] by simp
  with Cons.prems(1) obtain r where r: "res = Inr r" and nn: "\<not> nullish ty"
    by (cases res) auto
  show ?case
  proof (cases "r = VBool True")
    case True
    with run r nn show ?thesis by simp
  next
    case False
    with acc r Cons.prems have "\<exists>u \<in> set rest. accepts (oneOf_strip u) v" by auto
    with Cons.IH [of s'] Cons.prems(1) have "fst (oneOfType_some rest v s') = Inr True" by simp
    with run r nn False show ?thesis by simp
  qed
qed

lemma call_oneOfType_true:
  "fst (call_validator ctx (VOneOfType arr) [v] s) = Inr (VBool True)
   \<longleftrightarrow> fst (oneOfType_some arr v s) = Inr True"
proof -
  obtain res s' where run: "oneOfType_some arr v s = (res, s')"
    by (cases "oneOfType_some arr v s")
  show ?thesis
  proof (cases res)
    case (Inl e)
    with run show ?thesis by (simp add: arg0_def)
  next
    case (Inr b)
    with run show ?thesis by (cases b; cases "to_str v") (simp_all add: arg0_def)
  qed
qed

lemma validate_with_validator_true:
  assumes "fst (validateType (TDesc d) v silent s) = Inr (VBool True)"
      and "has_type d" and "v \<noteq> VUndefined" and "d_validator d = Some f"
  shows "\<exists>s1. fst (call_validator (d_name d, d_isLoose d) f [v] s1) = Inr (VBool True)"
proof -
  obtain res s1 where ts: "type_stage d v s = (res, s1)"
    by (cases "type_stage d v s")
  have nd: "res \<noteq> Inr (Done r)" for r
    using ts assms(2,3)
    by (auto simp: type_stage_def native_check_def Let_def
             split: if_splits option.splits tyval.splits prod.splits sum.splits)
  show ?thesis
  proof (cases res)
    case (Inl e)
    with ts assms(1) show ?thesis by (simp add: validateType_stages)
  next
    case (Inr c)
    show ?thesis
    proof (cases c)
      case (Done r)
      with nd [of r] Inr show ?thesis by simp
    next
      case (Checked b n)
      show ?thesis
      proof (cases b)
        case False
        with ts Inr Checked assms(1) show ?thesis
          by (simp add: validateType_stages type_mismatch_def Let_def split: option.splits if_splits)
      next
        case True
        obtain rv s2 where cv: "call_validator (d_name d, d_isLoose d) f [v] (s1\<lparr>bufs := [] # bufs s1\<rparr>)
                      = (rv, s2)"
          by (cases "call_validator (d_name d, d_isLoose d) f [v] (s1\<lparr>bufs := [] # bufs s1\<rparr>)")
        with ts Inr Checked True assms(1,4) have "rv = Inr (VBool True)"
          by (cases rv) (auto simp: validateType_stages after_validator_def Let_def split: if_splits)
        with cv show ?thesis by (intro exI [of _ "s1\<lparr>bufs := [] # bufs s1\<rparr>"]) simp
      qed
    qed
  qed
qed

lemma call_validator_result_independent:
  "fst (call_validator ctx f args s) = fst (call_validator ctx f args s')"
  using uniform_all(3) [of ctx f args] unfolding uniform_def by metis

lemma nativeChecks_step_contribution: "nativeChecks_step ret u = ret @ contribution u"
  by (cases u)
     (auto simp: nativeChecks_step_def contribution_def concat_js_def
           split: tyval.splits option.splits)

lemma nativeChecks_contributions:
  "foldl nativeChecks_step acc arr = acc @ concat (map contribution arr)"
  by (induction arr arbitrary: acc) (simp_all add: nativeChecks_step_contribution)

lemma same_type_atomic: "atomic u \<Longrightarrow> atomic t \<Longrightarrow> same_type u t \<longleftrightarrow> u = t"
  by (cases u; cases t) auto

lemma remove_duplicates_fold_atomic:
  "\<forall>t \<in> set acc. atomic t \<Longrightarrow> \<forall>t \<in> set xs. atomic t \<Longrightarrow>
   foldl (\<lambda>ret t. if list_ex (\<lambda>u. same_type u t) ret then ret else ret @ [t]) acc xs
   = foldl (\<lambda>ret c. if c \<in> set ret then ret else ret @ [c]) acc xs"
proof (induction xs arbitrary: acc)
  case Nil
  then show ?case by simp
next
  case (Cons x xs)
  from Cons.prems have "list_ex (\<lambda>u. same_type u x) acc \<longleftrightarrow> x \<in> set acc"
    by (auto simp: list_ex_iff same_type_atomic)
  moreover from Cons.prems have "\<forall>t \<in> set (acc @ [x]). atomic t" by simp
  ultimately show ?case
    using Cons.IH [of acc] Cons.IH [of "acc @ [x]"] Cons.prems by simp
qed

lemma remove_duplicates_atomic:
  "\<forall>t \<in> set xs. atomic t \<Longrightarrow> remove_duplicates xs = first_occurrences xs"
  unfolding remove_duplicates_def
  by (subst remove_duplicates_fold_atomic) (simp_all add: foldl_first_occurrences)

text \<open>
  C3, as the specification states it: a value passes \<open>oneOfType(candidates)\<close> if and only
  if one candidate, with its own validator, accepts it. With the candidates
  \<open>oneOf([0, 1, 'string'])\<close> and \<open>shape({id: Number})\<close> the value \<open>5\<close> passes, and neither
  candidate accepts \<open>5\<close>: inside the union the enumeration stands for its type only.
\<close>

theorem c3_nested_oneOf_validator_dropped:
  "(case oneOf (VArr 0 [VNum (NInt 0), VNum (NInt 1), VStr ''string'']) of
      Inr c \<Rightarrow>
        (case oneOfType (TArray [TDesc c, TDesc (shape [(''id'', TCtor CNumber)])]) of
           Inr d \<Rightarrow>
             fst (validateType (TDesc d) (VNum (NInt 5)) False init_state) = Inr (VBool True)
             \<and> \<not> accepts (TDesc c) (VNum (NInt 5))
             \<and> \<not> accepts (TDesc (shape [(''id'', TCtor CNumber)])) (VNum (NInt 5))
         | Inl e \<Rightarrow> False)
    | Inl e \<Rightarrow> False)"
  by code_simp


lemma hasCustomValidators_iff:
  "list_ex sets_hasCustomValidators arr
   \<longleftrightarrow> (\<exists>c. TDesc c \<in> set arr \<and> d_name c \<noteq> Some ''oneOf'' \<and> d_validator c \<noteq> None)"
proof
  assume "list_ex sets_hasCustomValidators arr"
  then obtain u where u: "u \<in> set arr" "sets_hasCustomValidators u"
    by (auto simp: list_ex_iff)
  from u(2) obtain c where "u = TDesc c" "d_name c \<noteq> Some ''oneOf''" "d_validator c \<noteq> None"
    by (cases u) (auto simp: sets_hasCustomValidators_def split: option.splits)
  with u(1) show "\<exists>c. TDesc c \<in> set arr \<and> d_name c \<noteq> Some ''oneOf'' \<and> d_validator c \<noteq> None"
    by blast
next
  assume "\<exists>c. TDesc c \<in> set arr \<and> d_name c \<noteq> Some ''oneOf'' \<and> d_validator c \<noteq> None"
  then obtain c where c: "TDesc c \<in> set arr" "d_name c \<noteq> Some ''oneOf''" "d_validator c \<noteq> None"
    by blast
  then have "sets_hasCustomValidators (TDesc c)"
    by (auto simp: sets_hasCustomValidators_def split: option.splits)
  with c(1) show "list_ex sets_hasCustomValidators arr"
    by (auto simp: list_ex_iff)
qed

lemma oneOfType_characterised:
  "\<exists>d. oneOfType (TArray arr) = Inr d
    \<and> ((\<forall>u \<in> set arr. \<forall>t \<in> set (contribution u). atomic t)
         \<longrightarrow> d_type d = Some (TArray (type_union arr)))
    \<and> (\<not> list_ex sets_hasCustomValidators arr \<longrightarrow> d_validator d = None)
    \<and> (list_ex sets_hasCustomValidators arr \<longrightarrow>
         (\<exists>f. d_validator d = Some f
           \<and> (fst (call_validator (d_name d, d_isLoose d) f [v] s) = Inr (VBool True)
                \<longrightarrow> (\<exists>u \<in> set arr. accepts (oneOf_strip u) v))
           \<and> ((\<forall>u \<in> set arr. \<not> nullish u \<and> \<not> raises (oneOf_strip u) v)
                \<and> (\<exists>u \<in> set arr. accepts (oneOf_strip u) v)
                \<longrightarrow> fst (call_validator (d_name d, d_isLoose d) f [v] s) = Inr (VBool True))
           \<and> (fst (validateType (TDesc d) v silent s) = Inr (VBool True) \<and> v \<noteq> VUndefined
                \<longrightarrow> fst (call_validator (d_name d, d_isLoose d) f [v] s) = Inr (VBool True))))
    \<and> (\<forall>i lits c. oneOf (VArr i lits) = Inr c \<and> (\<forall>x \<in> set lits. own_constructor x = None) \<longrightarrow>
          contribution (TDesc c) = map TCtor (member_constructors lits)
          \<and> oneOf_strip (TDesc c) = (if member_constructors lits = [] then TNull
                                     else TArray (map TCtor (member_constructors lits))))
    \<and> (\<forall>obj. contribution (TDesc (shape obj)) = [TCtor CObject])
    \<and> (\<forall>c. d_name c \<noteq> Some ''oneOf'' \<longrightarrow> oneOf_strip (TDesc c) = TDesc c)"
proof -
  let ?ty = "TArray (remove_duplicates (foldl nativeChecks_step [] arr))"
  let ?d = "toType ''oneOfType'' (obj_lit (Some ?ty)
              (if list_ex sets_hasCustomValidators arr then Some (VOneOfType arr) else None)) False"
  have d: "oneOfType (TArray arr) = Inr ?d"
    by (simp add: oneOfType_def Let_def)
  have fields: "d_type ?d = Some ?ty"
    "d_validator ?d = (if list_ex sets_hasCustomValidators arr then Some (VOneOfType arr) else None)"
    "has_type ?d"
    by (simp_all add: toType_def obj_lit_def has_type_def)
  have u: "d_type ?d = Some (TArray (type_union arr))"
    if "\<forall>u \<in> set arr. \<forall>t \<in> set (contribution u). atomic t"
  proof -
    from that have "\<forall>t \<in> set (concat (map contribution arr)). atomic t" by auto
    then have "remove_duplicates (foldl nativeChecks_step [] arr) = type_union arr"
      by (simp add: nativeChecks_contributions remove_duplicates_atomic type_union_def)
    with fields(1) show ?thesis by simp
  qed
  have a: "fst (call_validator ctx (VOneOfType arr) [v] s) = Inr (VBool True)
            \<Longrightarrow> \<exists>u \<in> set arr. accepts (oneOf_strip u) v" for ctx s
    using oneOfType_some_true_imp [of arr v s] call_oneOfType_true [of ctx arr v s] by blast
  have b: "(\<forall>u \<in> set arr. \<not> nullish u \<and> \<not> raises (oneOf_strip u) v)
                \<and> (\<exists>u \<in> set arr. accepts (oneOf_strip u) v)
            \<Longrightarrow> fst (call_validator ctx (VOneOfType arr) [v] s) = Inr (VBool True)" for ctx
    using oneOfType_some_true_if [of arr v s] call_oneOfType_true [of ctx arr v s] by blast
  have c: "fst (call_validator (d_name ?d, d_isLoose ?d) (VOneOfType arr) [v] s) = Inr (VBool True)"
    if "list_ex sets_hasCustomValidators arr"
      and "fst (validateType (TDesc ?d) v silent s) = Inr (VBool True) \<and> v \<noteq> VUndefined"
  proof -
    from that(1) have "d_validator ?d = Some (VOneOfType arr)" by (simp add: toType_def obj_lit_def)
    from validate_with_validator_true [OF conjunct1 [OF that(2)] fields(3) conjunct2 [OF that(2)] this]
    obtain s1 where "fst (call_validator (d_name ?d, d_isLoose ?d) (VOneOfType arr) [v] s1)
                      = Inr (VBool True)" by blast
    then show ?thesis
      using call_validator_result_independent [of "(d_name ?d, d_isLoose ?d)" "VOneOfType arr" "[v]" s s1]
      by simp
  qed
  have e: "contribution (TDesc c) = map TCtor (member_constructors lits)
          \<and> oneOf_strip (TDesc c) = (if member_constructors lits = [] then TNull
                                     else TArray (map TCtor (member_constructors lits)))"
    if "oneOf (VArr i lits) = Inr c \<and> (\<forall>x \<in> set lits. own_constructor x = None)" for i lits c
    using that
    by (auto simp: oneOf_def oneOf_strip_def contribution_def toType_def obj_lit_def Let_def
                   allowedTypes_eq
             split: option.splits)
  have sh: "contribution (TDesc (shape obj)) = [TCtor CObject]" for obj
    by (simp add: contribution_def shape_def toType_def obj_lit_def Let_def)
  have g: "oneOf_strip (TDesc c) = TDesc c" if "d_name c \<noteq> Some ''oneOf''" for c
    using that by (simp add: oneOf_strip_def)
  show ?thesis
  proof (rule exI [of _ ?d], intro conjI impI allI)
    assume h: "list_ex sets_hasCustomValidators arr"
    show "\<exists>f. d_validator ?d = Some f
           \<and> (fst (call_validator (d_name ?d, d_isLoose ?d) f [v] s) = Inr (VBool True)
                \<longrightarrow> (\<exists>u \<in> set arr. accepts (oneOf_strip u) v))
           \<and> ((\<forall>u \<in> set arr. \<not> nullish u \<and> \<not> raises (oneOf_strip u) v)
                \<and> (\<exists>u \<in> set arr. accepts (oneOf_strip u) v)
                \<longrightarrow> fst (call_validator (d_name ?d, d_isLoose ?d) f [v] s) = Inr (VBool True))
           \<and> (fst (validateType (TDesc ?d) v silent s) = Inr (VBool True) \<and> v \<noteq> VUndefined
                \<longrightarrow> fst (call_validator (d_name ?d, d_isLoose ?d) f [v] s) = Inr (VBool True))"
    proof (rule exI [of _ "VOneOfType arr"], intro conjI impI)
      show "d_validator ?d = Some (VOneOfType arr)" using h by (simp add: toType_def obj_lit_def)
    qed (use a b c [OF h] in blast)+
  next
    assume "\<forall>u \<in> set arr. \<forall>t \<in> set (contribution u). atomic t"
    then show "d_type ?d = Some (TArray (type_union arr))" by (rule u)
  next
    fix i lits c
    assume "oneOf (VArr i lits) = Inr c \<and> (\<forall>x \<in> set lits. own_constructor x = None)"
    from e [OF this]
    show "contribution (TDesc c) = map TCtor (member_constructors lits)"
      and "oneOf_strip (TDesc c) = (if member_constructors lits = [] then TNull
                                     else TArray (map TCtor (member_constructors lits)))"
      by simp_all
  qed (use d fields sh g in simp_all)
qed


text \<open>
  C3, amended: \<open>oneOfType(arr)\<close> returns a descriptor. When the native types the
  candidates contribute are constructors, \<open>null\<close> or \<open>undefined\<close>, its type is their union:
  the contributions in the order of the candidates, each at its first occurrence. A
  \<open>oneOf\<close> candidate (over literals without an own property \<open>constructor\<close>) contributes the
  constructors of its literals, a shape contributes \<open>Object\<close>. The descriptor has a
  validator exactly when a candidate that is a plain object, other than a \<open>oneOf\<close>
  descriptor, has one. In that validator a \<open>oneOf\<close> candidate stands for its type alone
  (the list of the constructors of its literals, or \<open>null\<close>): its own validator is not
  kept. Every other candidate, a shape for instance, is validated as it is, with its
  validator. The validator returns \<open>true\<close> only if one of the candidates, taken so, accepts
  the value, and it does return \<open>true\<close> if one accepts and none raises. A value other than
  \<open>undefined\<close> passes the validation of the resulting descriptor only if that validator
  returns \<open>true\<close> on it.
\<close>

theorem c3_oneOfType:
  "\<exists>d. oneOfType (TArray arr) = Inr d
    \<and> ((\<forall>u \<in> set arr. \<forall>t \<in> set (contribution u). atomic t)
         \<longrightarrow> d_type d = Some (TArray (type_union arr)))
    \<and> (\<not> (\<exists>c. TDesc c \<in> set arr \<and> d_name c \<noteq> Some ''oneOf'' \<and> d_validator c \<noteq> None)
          \<longrightarrow> d_validator d = None)
    \<and> ((\<exists>c. TDesc c \<in> set arr \<and> d_name c \<noteq> Some ''oneOf'' \<and> d_validator c \<noteq> None) \<longrightarrow>
         (\<exists>f. d_validator d = Some f
           \<and> (fst (call_validator (d_name d, d_isLoose d) f [v] s) = Inr (VBool True)
                \<longrightarrow> (\<exists>u \<in> set arr. accepts (oneOf_strip u) v))
           \<and> ((\<forall>u \<in> set arr. \<not> nullish u \<and> \<not> raises (oneOf_strip u) v)
                \<and> (\<exists>u \<in> set arr. accepts (oneOf_strip u) v)
                \<longrightarrow> fst (call_validator (d_name d, d_isLoose d) f [v] s) = Inr (VBool True))
           \<and> (fst (validateType (TDesc d) v silent s) = Inr (VBool True) \<and> v \<noteq> VUndefined
                \<longrightarrow> fst (call_validator (d_name d, d_isLoose d) f [v] s) = Inr (VBool True))))
    \<and> (\<forall>i lits c. oneOf (VArr i lits) = Inr c \<and> (\<forall>x \<in> set lits. own_constructor x = None) \<longrightarrow>
          contribution (TDesc c) = map TCtor (member_constructors lits)
          \<and> oneOf_strip (TDesc c) = (if member_constructors lits = [] then TNull
                                     else TArray (map TCtor (member_constructors lits))))
    \<and> (\<forall>obj. contribution (TDesc (shape obj)) = [TCtor CObject])
    \<and> (\<forall>c. d_name c \<noteq> Some ''oneOf'' \<longrightarrow> oneOf_strip (TDesc c) = TDesc c)"
  using oneOfType_characterised [of arr v s silent] unfolding hasCustomValidators_iff .


theorem c3_oneOfType_witness:
  "\<exists>d f. oneOfType (TArray [TDesc (projr (oneOf (VArr 0 [VNum (NInt 0), VStr ''string'']))),
                            TDesc (shape [(''id'', TCtor CNumber)]),
                            TCtor CString]) = Inr d
     \<and> d_type d = Some (TArray [TCtor CNumber, TCtor CString, TCtor CObject])
     \<and> d_validator d = Some f
     \<and> fst (call_validator (d_name d, d_isLoose d) f [VObj 1 [(''id'', VNum (NInt 10))]] init_state)
         = Inr (VBool True)"
proof -
  let ?c = "projr (oneOf (VArr 0 [VNum (NInt 0), VStr ''string'']))"
  let ?arr = "[TDesc ?c, TDesc (shape [(''id'', TCtor CNumber)]), TCtor CString]"
  let ?v = "VObj 1 [(''id'', VNum (NInt 10))]"
  have "TDesc (shape [(''id'', TCtor CNumber)]) \<in> set ?arr
        \<and> d_name (shape [(''id'', TCtor CNumber)]) \<noteq> Some ''oneOf''
        \<and> d_validator (shape [(''id'', TCtor CNumber)]) \<noteq> None"
    by (simp add: shape_def toType_def obj_lit_def Let_def)
  then have h: "\<exists>c. TDesc c \<in> set ?arr \<and> d_name c \<noteq> Some ''oneOf'' \<and> d_validator c \<noteq> None"
    by blast
  have n: "\<forall>u \<in> set ?arr. \<not> nullish u \<and> \<not> raises (oneOf_strip u) ?v"
    by code_simp
  have a: "\<exists>u \<in> set ?arr. accepts (oneOf_strip u) ?v"
    by code_simp
  have c: "d_type ?c = Some (TArray [TCtor CNumber, TCtor CString])" "d_name ?c = Some ''oneOf''"
    by (simp_all add: oneOf_def allowedTypes_def toType_def obj_lit_def Let_def)
  have k: "contribution (TDesc ?c) = [TCtor CNumber, TCtor CString]"
    "contribution (TDesc (shape [(''id'', TCtor CNumber)])) = [TCtor CObject]"
    "contribution (TCtor CString) = [TCtor CString]"
    by (simp_all add: contribution_def c shape_def toType_def obj_lit_def Let_def)
  have at: "\<forall>u \<in> set ?arr. \<forall>t \<in> set (contribution u). atomic t"
    by (simp add: k)
  have un: "type_union ?arr = [TCtor CNumber, TCtor CString, TCtor CObject]"
    by (simp add: type_union_def k first_occurrences_def)
  from c3_oneOfType [of ?arr ?v init_state False] obtain d where
    d: "oneOfType (TArray ?arr) = Inr d"
    and ty: "(\<forall>u \<in> set ?arr. \<forall>t \<in> set (contribution u). atomic t)
         \<longrightarrow> d_type d = Some (TArray (type_union ?arr))"
    and v: "(\<exists>c. TDesc c \<in> set ?arr \<and> d_name c \<noteq> Some ''oneOf'' \<and> d_validator c \<noteq> None) \<longrightarrow>
         (\<exists>f. d_validator d = Some f
           \<and> ((\<forall>u \<in> set ?arr. \<not> nullish u \<and> \<not> raises (oneOf_strip u) ?v)
                \<and> (\<exists>u \<in> set ?arr. accepts (oneOf_strip u) ?v)
                \<longrightarrow> fst (call_validator (d_name d, d_isLoose d) f [?v] init_state) = Inr (VBool True)))"
    by blast
  from ty at un have t: "d_type d = Some (TArray [TCtor CNumber, TCtor CString, TCtor CObject])"
    by simp
  from v h n a obtain f where "d_validator d = Some f"
    "fst (call_validator (d_name d, d_isLoose d) f [?v] init_state) = Inr (VBool True)"
    by blast
  with d t show ?thesis by blast
qed

section \<open>Totality of \<open>validateType\<close>\<close>

subsection \<open>Plain data and well-formed types\<close>

text \<open>
  A value that is plain data has a string conversion, and so has a list of such values
  joined by a separator; \<open>getNativeType\<close> returns on it. Well-formedness is kept by the steps \<open>validateType\<close> takes
  before it calls itself: wrapping a type into \<open>{ type }\<close>, replacing a \<open>oneOf\<close> candidate
  by its type, reading a field of a shape and a property of the value.
\<close>

lemma plain_data_no_special:
  "plain_data (VObj i kvs) \<Longrightarrow> k \<in> set special_keys \<Longrightarrow> map_of kvs k = None"
  by (force simp: map_of_eq_None_iff)

lemma plain_data_own_constructor: "plain_data v \<Longrightarrow> own_constructor v = None"
  by (cases v) (auto simp: own_constructor_def special_keys_def intro: plain_data_no_special)

lemma plain_data_isPlainObject: "plain_data (VObj i kvs) \<Longrightarrow> isPlainObject (VObj i kvs)"
  by (rule isPlainObject_inherited) (rule plain_data_own_constructor)









subsection \<open>Validation of a well-formed type returns\<close>


subsection \<open>The builders return well-formed descriptors\<close>

text \<open>
  The getters of the namespace are well formed, and so is what \<open>custom\<close>, \<open>oneOf\<close>,
  \<open>instanceOf\<close>, \<open>arrayOf\<close>, \<open>objectOf\<close>, \<open>shape\<close>, \<open>oneOfType\<close>, \<open>isRequired\<close>, \<open>loose\<close>,
  \<open>def\<close> and a getter defined by \<open>extend\<close> on a parent return, given well-formed
  arguments: a function that returns a boolean for \<open>custom\<close>, a constructor for
  \<open>instanceOf\<close>, well-formed types for the composite builders, and candidates other than
  \<open>null\<close> and \<open>undefined\<close> for \<open>oneOfType\<close>.
\<close>

lemma wf_getters:
  "wf_desc vt_any" "wf_desc vt_symbol" "wf_desc string_base" "wf_desc number_base"
  "wf_desc array_base" "wf_desc object_base" "wf_desc integer_base"
  by (simp_all add: vt_any_def vt_symbol_def string_base_def number_base_def array_base_def
        object_base_def integer_base_def toType_def obj_lit_def)

lemma wf_custom:
  "custom (Callable n f) msg = Inr d \<Longrightarrow> \<forall>x. \<exists>b. f x = Inr (VBool b) \<Longrightarrow> wf_desc d"
  by (auto simp: custom_def toType_def obj_lit_def)

lemma wf_oneOf: "oneOf a = Inr d \<Longrightarrow> wf_desc d"
  by (cases a)
     (auto simp: oneOf_def toType_def obj_lit_def Let_def split: option.splits if_splits)

lemma wf_instanceOf: "wf_desc (instanceOf (TCtor c))"
  by (simp add: instanceOf_def toType_def obj_lit_def)


lemma wf_objectOf: "wf_ty t \<Longrightarrow> wf_desc (objectOf t)"
  by (auto simp: objectOf_def toType_def obj_lit_def native_pass_def matches_ctor_def arg0_def)


lemma wf_loose: "wf_desc d \<Longrightarrow> wf_desc (loose d)"
  by (cases d) (simp add: loose_def)

lemma wf_isRequired: "wf_desc d \<Longrightarrow> wf_desc (isRequired d)"
  by (cases d) (simp add: isRequired_def)

lemma wf_nativeChecks_step:
  "wf_ty u \<Longrightarrow> \<forall>t \<in> set ret. wf_ty t \<Longrightarrow> \<forall>t \<in> set (nativeChecks_step ret u). wf_ty t"
proof (cases u)
  case (TDesc d)
  assume "wf_ty u" "\<forall>t \<in> set ret. wf_ty t"
  with TDesc show ?thesis
    by (cases d)
       (auto simp: nativeChecks_step_def concat_js_def split: option.splits tyval.splits)
qed (auto simp: nativeChecks_step_def)

lemma wf_nativeChecks:
  "\<forall>u \<in> set arr. wf_ty u \<Longrightarrow> \<forall>t \<in> set ret. wf_ty t
   \<Longrightarrow> \<forall>t \<in> set (foldl nativeChecks_step ret arr). wf_ty t"
proof (induction arr arbitrary: ret)
  case Nil
  then show ?case by simp
next
  case (Cons u arr)
  from Cons.prems have "\<forall>t \<in> set (nativeChecks_step ret u). wf_ty t"
    by (intro wf_nativeChecks_step) simp_all
  with Cons.IH [of "nativeChecks_step ret u"] Cons.prems show ?case by simp
qed

lemma set_remove_duplicates_fold:
  "set (foldl (\<lambda>ret t. if list_ex (\<lambda>u. same_type u t) ret then ret else ret @ [t]) acc xs)
     \<subseteq> set acc \<union> set xs"
proof (induction xs arbitrary: acc)
  case Nil
  then show ?case by simp
next
  case (Cons a xs)
  show ?case
  proof (cases "list_ex (\<lambda>u. same_type u a) acc")
    case True
    with Cons.IH [of acc] show ?thesis by auto
  next
    case False
    with Cons.IH [of "acc @ [a]"] show ?thesis by auto
  qed
qed

lemma set_remove_duplicates: "set (remove_duplicates xs) \<subseteq> set xs"
  using set_remove_duplicates_fold [of "[]" xs] by (simp add: remove_duplicates_def)

lemma wf_oneOfType:
  assumes "oneOfType a = Inr d" and "a = TArray arr"
    and "\<forall>u \<in> set arr. \<not> nullish u \<and> wf_ty u"
  shows "wf_desc d"
proof -
  from assms(3) have "\<forall>t \<in> set (foldl nativeChecks_step [] arr). wf_ty t"
    by (intro wf_nativeChecks) simp_all
  with set_remove_duplicates [of "foldl nativeChecks_step [] arr"]
  have "\<forall>t \<in> set (remove_duplicates (foldl nativeChecks_step [] arr)). wf_ty t" by blast
  with assms show ?thesis
    by (auto simp: oneOfType_def toType_def obj_lit_def Let_def split: if_splits)
qed

lemma wf_set_default: "wf_desc d \<Longrightarrow> wf_desc (set_default d dv)"
  by (cases d) (simp add: set_default_def)

lemma wf_def_method: "def_method d x s = (Inr d', s') \<Longrightarrow> wf_desc d \<Longrightarrow> wf_desc d'"
  by (auto simp: def_method_def wf_set_default
           split: if_splits prod.splits sum.splits bool.splits option.splits)

lemma wf_inherit:
  assumes "parent_of (s_type props) = Some p" and "wf_desc p"
    and "case s_validator props of None \<Rightarrow> True | Some f \<Rightarrow> wf_val f \<and> (\<forall>v. applicable f [v])"
  shows "wf_desc (fst (inherit props))"
  using assms
  by (cases p)
     (auto simp: inherit_def Let_def split: option.splits tyval.splits dflt.splits jsval.splits)

lemma wf_extend_getter:
  assumes "extend_one props reg = (Inr (), reg')" and "s_getter props"
    and "parent_of (s_type props) = Some p" and "wf_desc p"
    and "case s_validator props of None \<Rightarrow> True | Some f \<Rightarrow> wf_val f \<and> (\<forall>v. applicable f [v])"
  shows "\<exists>d. get_type reg' (s_name props) = Some d \<and> wf_desc d"
proof -
  obtain opts validate where i: "inherit props = (opts, validate)" by (cases "inherit props")
  with wf_inherit [OF assms(3,4,5)] have "wf_desc opts" by simp
  then have "wf_desc (toType (s_name props) opts validate)"
    by (cases opts) (simp add: toType_def)
  with assms(1,2) i show ?thesis
    by (auto simp: extend_one_def get_type_def split: if_splits)
qed

subsection \<open>The claim\<close>





end
